theory Spec2Isabelle
  imports Main "HOL-Library.AList" "HOL-Library.Char_ord" "HOL-Library.List_Lexorder"
begin

text \<open>
  The multiversion store (package \<^verbatim>\<open>multiversion\<close>) and the scheduler (package
  \<^verbatim>\<open>tasks\<close>) of the optimistic parallel execution of transactions, as functions on an
  explicit state, and the properties C1 to C10 of their specification.
\<close>

section \<open>Byte slices, keys and the parent store\<close>

text \<open>
  A Go \<^verbatim>\<open>[]byte\<close> is either nil or a (possibly empty) sequence of bytes: the contents
  are a \<open>bytes\<close>, the slice value is a \<open>bytes option\<close> with \<open>None\<close> for nil.
  Go strings are byte sequences compared bytewise, so map keys are \<open>string\<close>s under the
  lexicographic order on characters.
\<close>

type_synonym bytes = string

text \<open>\<^verbatim>\<open>bytes.Equal\<close> of the Go standard library: a nil argument is equivalent to an
  empty slice.\<close>

definition contents :: "bytes option \<Rightarrow> bytes" where
  "contents b = (case b of None \<Rightarrow> [] | Some x \<Rightarrow> x)"

definition bytes_Equal :: "bytes option \<Rightarrow> bytes option \<Rightarrow> bool" where
  "bytes_Equal a b = (contents a = contents b)"

text \<open>The parent \<^verbatim>\<open>types.KVStore\<close>: \<^verbatim>\<open>Get\<close> returns nil for an absent key.\<close>

type_synonym KVStore = "string \<rightharpoonup> bytes"

datatype error =
    PanicParentConflict
  | PanicEstimateOnWrite
  | PanicNilStore
  | PanicNilResponse
  | ContextCanceled

section \<open>Versioned values of one key\<close>

text \<open>
  The store keeps one \<^verbatim>\<open>MultiVersionValue\<close> per key and calls its methods
  (\<^verbatim>\<open>NewMultiVersionItem\<close>, \<^verbatim>\<open>Set\<close>, \<^verbatim>\<open>Delete\<close>, \<^verbatim>\<open>SetEstimate\<close>, \<^verbatim>\<open>Remove\<close>,
  \<^verbatim>\<open>GetLatest\<close>, \<^verbatim>\<open>GetLatestBeforeIndex\<close>, \<^verbatim>\<open>GetLatestNonEstimate\<close>) and those of the
  \<^verbatim>\<open>MultiVersionValueItem\<close>s it returns. The file that declares them is not among the
  sources, so each definition of this section follows the specification.
\<close>

text \<open>Modelled from the spec: the value entry attached to a key and an index is one of
  \<open>Written(bytes, incarnation)\<close>, \<open>Deleted(incarnation)\<close>, \<open>Estimate(incarnation)\<close>. The store
  calls \<^verbatim>\<open>Set\<close> with bytes that are not nil, so a written entry carries the contents.\<close>

datatype entry = Written bytes int | Deleted int | Estimate int

text \<open>Modelled from the spec: an item is the entry together with the transaction index
  it is stored at.\<close>

type_synonym MultiVersionValueItem = "int \<times> entry"

text \<open>Modelled from the spec: a versioned value is a mapping from transaction index to
  value entry, ordered by index, with one entry per index; here an association list in
  ascending index order.\<close>

type_synonym MultiVersionValue = "MultiVersionValueItem list"

text \<open>Modelled from the spec: \<^verbatim>\<open>Index()\<close> of an item, the index it is stored at.\<close>

definition Item_Index :: "MultiVersionValueItem \<Rightarrow> int" where
  "Item_Index it = fst it"

text \<open>Modelled from the spec: \<^verbatim>\<open>Incarnation()\<close>, the incarnation stored on an entry is the
  one that produced it.\<close>

fun Item_Incarnation :: "MultiVersionValueItem \<Rightarrow> int" where
  "Item_Incarnation (i, Written v k) = k"
| "Item_Incarnation (i, Deleted k) = k"
| "Item_Incarnation (i, Estimate k) = k"

text \<open>Modelled from the spec: \<^verbatim>\<open>IsEstimate()\<close> holds of the entries tagged \<open>Estimate\<close>.\<close>

fun IsEstimate :: "MultiVersionValueItem \<Rightarrow> bool" where
  "IsEstimate (i, Estimate k) = True"
| "IsEstimate (i, e) = False"

text \<open>Modelled from the spec: \<^verbatim>\<open>IsDeleted()\<close> holds of the entries tagged \<open>Deleted\<close>.\<close>

fun IsDeleted :: "MultiVersionValueItem \<Rightarrow> bool" where
  "IsDeleted (i, Deleted k) = True"
| "IsDeleted (i, e) = False"

text \<open>Modelled from the spec: \<^verbatim>\<open>Value()\<close> is the bytes of a written entry; a deletion and
  an estimate carry none (nil).\<close>

fun Value :: "MultiVersionValueItem \<Rightarrow> bytes option" where
  "Value (i, Written v k) = Some v"
| "Value (i, e) = None"

text \<open>Modelled from the spec: insertion lazily creates empty versioned values.\<close>

definition NewMultiVersionItem :: MultiVersionValue where
  "NewMultiVersionItem = []"

text \<open>Modelled from the spec: storing an entry at an index replaces any prior entry at
  that index; otherwise the entry takes its place in the index order.\<close>

fun put_entry :: "int \<Rightarrow> entry \<Rightarrow> MultiVersionValue \<Rightarrow> MultiVersionValue" where
  "put_entry i e [] = [(i, e)]"
| "put_entry i e ((j, f) # xs) =
     (if i < j then (i, e) # (j, f) # xs
      else if i = j then (i, e) # xs
      else (j, f) # put_entry i e xs)"

text \<open>Modelled from the spec: \<open>set(i, k, v)\<close> stores \<open>Written(v, k)\<close> at \<open>i\<close>, replacing any
  prior entry.\<close>

definition Item_Set :: "int \<Rightarrow> int \<Rightarrow> bytes \<Rightarrow> MultiVersionValue \<Rightarrow> MultiVersionValue" where
  "Item_Set index incarnation v item = put_entry index (Written v incarnation) item"

text \<open>Modelled from the spec: \<open>delete(i, k)\<close> stores \<open>Deleted(k)\<close> at \<open>i\<close>.\<close>

definition Item_Delete :: "int \<Rightarrow> int \<Rightarrow> MultiVersionValue \<Rightarrow> MultiVersionValue" where
  "Item_Delete index incarnation item = put_entry index (Deleted incarnation) item"

text \<open>Modelled from the spec: \<open>set_estimate(i, k)\<close> stores \<open>Estimate(k)\<close> at \<open>i\<close>, replacing
  any prior entry.\<close>

definition Item_SetEstimate :: "int \<Rightarrow> int \<Rightarrow> MultiVersionValue \<Rightarrow> MultiVersionValue" where
  "Item_SetEstimate index incarnation item = put_entry index (Estimate incarnation) item"

text \<open>Modelled from the spec: \<open>remove(i)\<close> erases the entry at \<open>i\<close> (no-op if absent).\<close>

definition Item_Remove :: "int \<Rightarrow> MultiVersionValue \<Rightarrow> MultiVersionValue" where
  "Item_Remove index item = filter (\<lambda>it. fst it \<noteq> index) item"

text \<open>The last element of a list, if there is one: the item at the greatest index of a
  list in ascending index order.\<close>

definition last_option :: "'a list \<Rightarrow> 'a option" where
  "last_option xs = (case rev xs of [] \<Rightarrow> None | x # _ \<Rightarrow> Some x)"

text \<open>Modelled from the spec: \<open>latest()\<close> is the entry at the maximum index, or none if
  empty.\<close>

definition Item_GetLatest :: "MultiVersionValue \<Rightarrow> MultiVersionValueItem option" where
  "Item_GetLatest item = last_option item"

text \<open>Modelled from the spec: \<open>latest_before(i)\<close> is the entry at the greatest index
  \<open>< i\<close>, or none.\<close>

definition Item_GetLatestBeforeIndex :: "int \<Rightarrow> MultiVersionValue \<Rightarrow> MultiVersionValueItem option" where
  "Item_GetLatestBeforeIndex index item = last_option (filter (\<lambda>it. fst it < index) item)"

text \<open>Modelled from the spec: \<open>latest_non_estimate()\<close> is the entry at the greatest index
  whose entry is not \<open>Estimate\<close>, or none.\<close>

definition Item_GetLatestNonEstimate :: "MultiVersionValue \<Rightarrow> MultiVersionValueItem option" where
  "Item_GetLatestNonEstimate item = last_option (filter (\<lambda>it. \<not> IsEstimate it) item)"

section \<open>The multiversion store\<close>

text \<open>
  \<^verbatim>\<open>WriteSet\<close> and \<^verbatim>\<open>ReadSet\<close> are Go maps from key to byte slice that the store
  ranges over, and so is \<^verbatim>\<open>multiVersionMap\<close>: they are association lists, whose list
  order stands for the order in which \<^verbatim>\<open>range\<close> happens to visit the keys. A Go map
  holds a key once, so a well-formed list has distinct keys. The maps that are only
  indexed (\<^verbatim>\<open>txWritesetKeys\<close>, \<^verbatim>\<open>txReadSets\<close>) are partial functions. A nil map
  reads like an empty one.
\<close>

type_synonym WriteSet = "(string \<times> bytes option) list"

type_synonym ReadSet = "(string \<times> bytes option) list"

record Store =
  multiVersionMap :: "(string \<times> MultiVersionValue) list"
  txWritesetKeys :: "int \<rightharpoonup> string list"
  txReadSets :: "int \<rightharpoonup> ReadSet"
  parentStore :: KVStore

definition NewMultiVersionStore :: "KVStore \<Rightarrow> Store" where
  "NewMultiVersionStore parent =
     \<lparr>multiVersionMap = [], txWritesetKeys = Map.empty, txReadSets = Map.empty,
      parentStore = parent\<rparr>"

definition GetLatest :: "Store \<Rightarrow> string \<Rightarrow> MultiVersionValueItem option" where
  "GetLatest s key =
     (case map_of (multiVersionMap s) key of
        None \<Rightarrow> None
      | Some item \<Rightarrow> Item_GetLatest item)"

definition GetLatestBeforeIndex :: "Store \<Rightarrow> int \<Rightarrow> string \<Rightarrow> MultiVersionValueItem option" where
  "GetLatestBeforeIndex s index key =
     (case map_of (multiVersionMap s) key of
        None \<Rightarrow> None
      | Some item \<Rightarrow> Item_GetLatestBeforeIndex index item)"

definition Has :: "Store \<Rightarrow> int \<Rightarrow> string \<Rightarrow> bool" where
  "Has s index key =
     (case map_of (multiVersionMap s) key of
        None \<Rightarrow> False
      | Some item \<Rightarrow> Item_GetLatestBeforeIndex index item \<noteq> None)"

definition tryInitMultiVersionItem ::
  "string \<Rightarrow> (string \<times> MultiVersionValue) list \<Rightarrow> (string \<times> MultiVersionValue) list" where
  "tryInitMultiVersionItem keyString mvm =
     (case map_of mvm keyString of
        None \<Rightarrow> AList.update keyString NewMultiVersionItem mvm
      | Some item \<Rightarrow> mvm)"

text \<open>A method call on the item stored under a key changes that item where it is.
  Every call site either initialises the key first or has just found it in the map.\<close>

definition on_item ::
  "string \<Rightarrow> (MultiVersionValue \<Rightarrow> MultiVersionValue) \<Rightarrow>
   (string \<times> MultiVersionValue) list \<Rightarrow> (string \<times> MultiVersionValue) list" where
  "on_item key f mvm =
     (case map_of mvm key of
        None \<Rightarrow> mvm
      | Some item \<Rightarrow> AList.update key (f item) mvm)"

definition removeOldWriteset_key ::
  "int \<Rightarrow> WriteSet \<Rightarrow> string \<Rightarrow> (string \<times> MultiVersionValue) list \<Rightarrow>
   (string \<times> MultiVersionValue) list" where
  "removeOldWriteset_key index writeset key mvm =
     (if key \<in> set (map fst writeset) then mvm
      else on_item key (Item_Remove index) mvm)"

definition removeOldWriteset :: "int \<Rightarrow> WriteSet \<Rightarrow> Store \<Rightarrow> Store" where
  "removeOldWriteset index newWriteSet s =
     (let mvm = (case txWritesetKeys s index of
                   None \<Rightarrow> multiVersionMap s
                 | Some keys \<Rightarrow> fold (removeOldWriteset_key index newWriteSet) keys (multiVersionMap s))
      in s\<lparr>multiVersionMap := mvm, txWritesetKeys := (txWritesetKeys s)(index := None)\<rparr>)"

definition SetWriteset_entry ::
  "int \<Rightarrow> int \<Rightarrow> string \<times> bytes option \<Rightarrow> (string \<times> MultiVersionValue) list \<Rightarrow>
   (string \<times> MultiVersionValue) list" where
  "SetWriteset_entry index incarnation kv mvm =
     (case snd kv of
        None \<Rightarrow> on_item (fst kv) (Item_Delete index incarnation) (tryInitMultiVersionItem (fst kv) mvm)
      | Some v \<Rightarrow> on_item (fst kv) (Item_Set index incarnation v) (tryInitMultiVersionItem (fst kv) mvm))"

definition SetWriteset :: "int \<Rightarrow> int \<Rightarrow> WriteSet \<Rightarrow> Store \<Rightarrow> Store" where
  "SetWriteset index incarnation writeset s =
     (let s1 = removeOldWriteset index writeset s;
          writeSetKeys = map fst writeset;
          mvm = fold (SetWriteset_entry index incarnation) writeset (multiVersionMap s1)
      in s1\<lparr>multiVersionMap := mvm,
             txWritesetKeys := (txWritesetKeys s1)(index \<mapsto> sort writeSetKeys)\<rparr>)"

definition InvalidateWriteset_key ::
  "int \<Rightarrow> int \<Rightarrow> string \<Rightarrow> (string \<times> MultiVersionValue) list \<Rightarrow>
   (string \<times> MultiVersionValue) list" where
  "InvalidateWriteset_key index incarnation key mvm =
     on_item key (Item_SetEstimate index incarnation) (tryInitMultiVersionItem key mvm)"

definition InvalidateWriteset :: "int \<Rightarrow> int \<Rightarrow> Store \<Rightarrow> Store" where
  "InvalidateWriteset index incarnation s =
     (case txWritesetKeys s index of
        None \<Rightarrow> s
      | Some keys \<Rightarrow>
          s\<lparr>multiVersionMap := fold (InvalidateWriteset_key index incarnation) keys (multiVersionMap s)\<rparr>)"

definition SetEstimatedWriteset :: "int \<Rightarrow> int \<Rightarrow> WriteSet \<Rightarrow> Store \<Rightarrow> Store" where
  "SetEstimatedWriteset index incarnation writeset s =
     (let s1 = removeOldWriteset index writeset s;
          writeSetKeys = map fst writeset;
          mvm = fold (\<lambda>kv. InvalidateWriteset_key index incarnation (fst kv)) writeset (multiVersionMap s1)
      in s1\<lparr>multiVersionMap := mvm,
             txWritesetKeys := (txWritesetKeys s1)(index \<mapsto> sort writeSetKeys)\<rparr>)"

definition GetAllWritesetKeys :: "Store \<Rightarrow> (int \<rightharpoonup> string list)" where
  "GetAllWritesetKeys s = txWritesetKeys s"

definition SetReadset :: "int \<Rightarrow> ReadSet \<Rightarrow> Store \<Rightarrow> Store" where
  "SetReadset index readset s = s\<lparr>txReadSets := (txReadSets s)(index \<mapsto> readset)\<rparr>"

definition GetReadset :: "Store \<Rightarrow> int \<Rightarrow> ReadSet" where
  "GetReadset s index = (case txReadSets s index of None \<Rightarrow> [] | Some readset \<Rightarrow> readset)"

text \<open>The conflict set \<^verbatim>\<open>map[int]struct{}\<close> is a list without repetition; the body of the
  loop over the readset is \<open>validate_read\<close>, which panics on a read that disagrees with
  the parent store where the multiversion store has nothing before the index.\<close>

definition validate_read ::
  "Store \<Rightarrow> int \<Rightarrow> string \<times> bytes option \<Rightarrow> int list \<Rightarrow> error + int list" where
  "validate_read s index kv conflictSet =
     (case GetLatestBeforeIndex s index (fst kv) of
        None \<Rightarrow>
          (if \<not> bytes_Equal (parentStore s (fst kv)) (snd kv) then Inl PanicParentConflict
           else Inr conflictSet)
      | Some latestValue \<Rightarrow>
          (if IsEstimate latestValue then Inr (List.insert (Item_Index latestValue) conflictSet)
           else if IsDeleted latestValue then
             (if snd kv \<noteq> None then Inr (List.insert (Item_Index latestValue) conflictSet)
              else Inr conflictSet)
           else if \<not> bytes_Equal (Value latestValue) (snd kv) then
             Inr (List.insert (Item_Index latestValue) conflictSet)
           else Inr conflictSet))"

fun validate_readset :: "Store \<Rightarrow> int \<Rightarrow> ReadSet \<Rightarrow> int list \<Rightarrow> error + int list" where
  "validate_readset s index [] conflictSet = Inr conflictSet"
| "validate_readset s index (kv # readset) conflictSet =
     (case validate_read s index kv conflictSet of
        Inl e \<Rightarrow> Inl e
      | Inr conflictSet' \<Rightarrow> validate_readset s index readset conflictSet')"

definition ValidateTransactionState :: "Store \<Rightarrow> int \<Rightarrow> error + int list" where
  "ValidateTransactionState s index =
     (case validate_readset s index (GetReadset s index) [] of
        Inl e \<Rightarrow> Inl e
      | Inr conflictSet \<Rightarrow> Inr (sort conflictSet))"

text \<open>The body of the loop of \<^verbatim>\<open>WriteLatestToStore\<close>, on the result of
  \<^verbatim>\<open>GetLatestNonEstimate\<close> for the key, and the loop over the sorted keys.\<close>

definition writeLatest_item ::
  "string \<Rightarrow> MultiVersionValueItem option \<Rightarrow> KVStore \<Rightarrow> error + KVStore" where
  "writeLatest_item key found parent =
     (case found of
        None \<Rightarrow> Inr parent
      | Some mvValue \<Rightarrow>
          (if IsEstimate mvValue then Inl PanicEstimateOnWrite
           else if IsDeleted mvValue then Inr (parent(key := None))
           else (case Value mvValue of
                   None \<Rightarrow> Inr parent
                 | Some v \<Rightarrow> Inr (parent(key \<mapsto> v)))))"

fun writeLatest_keys ::
  "(string \<times> MultiVersionValue) list \<Rightarrow> string list \<Rightarrow> KVStore \<Rightarrow> error + KVStore" where
  "writeLatest_keys mvm [] parent = Inr parent"
| "writeLatest_keys mvm (key # keys) parent =
     (case writeLatest_item key
             (case map_of mvm key of None \<Rightarrow> None | Some item \<Rightarrow> Item_GetLatestNonEstimate item)
             parent of
        Inl e \<Rightarrow> Inl e
      | Inr parent' \<Rightarrow> writeLatest_keys mvm keys parent')"

definition WriteLatestToStore :: "Store \<Rightarrow> error + Store" where
  "WriteLatestToStore s =
     (let keys = sort (map fst (multiVersionMap s)) in
      case writeLatest_keys (multiVersionMap s) keys (parentStore s) of
        Inl e \<Rightarrow> Inl e
      | Inr parent \<Rightarrow> Inr (s\<lparr>parentStore := parent\<rparr>))"

section \<open>Views of the state used to state the properties\<close>

text \<open>The entry stored for a key at a transaction index, if any: the entry of the
  multiversion map at a (key, index) pair. A key with no item and a key whose item is
  empty both have no entry.\<close>

definition entry_at :: "(string \<times> MultiVersionValue) list \<Rightarrow> string \<Rightarrow> int \<Rightarrow> entry option" where
  "entry_at mvm key index = (case map_of mvm key of None \<Rightarrow> None | Some item \<Rightarrow> map_of item index)"

definition mv_entry :: "Store \<Rightarrow> string \<Rightarrow> int \<Rightarrow> entry option" where
  "mv_entry s key index = entry_at (multiVersionMap s) key index"

text \<open>The representation invariant of the versioned values: every item of the map is
  in strictly ascending index order.\<close>

definition item_sorted :: "MultiVersionValue \<Rightarrow> bool" where
  "item_sorted item = sorted_wrt (<) (map fst item)"

definition store_sorted :: "Store \<Rightarrow> bool" where
  "store_sorted s = list_all (\<lambda>(key, item). item_sorted item) (multiVersionMap s)"

text \<open>The versioned value of a key as the readers of the store see it: a key without an
  item reads like a key whose item is empty (\<^verbatim>\<open>GetLatest\<close>, \<^verbatim>\<open>GetLatestBeforeIndex\<close>,
  \<^verbatim>\<open>Has\<close> and \<^verbatim>\<open>WriteLatestToStore\<close> find nothing in either).\<close>

definition item_of :: "Store \<Rightarrow> string \<Rightarrow> MultiVersionValue" where
  "item_of s key = (case map_of (multiVersionMap s) key of None \<Rightarrow> [] | Some item \<Rightarrow> item)"

text \<open>The entry a writeset value is applied as: a tombstone (nil) as \<open>Deleted\<close>, bytes as
  \<open>Written\<close>.\<close>

definition entry_of_write :: "int \<Rightarrow> bytes option \<Rightarrow> entry" where
  "entry_of_write incarnation v =
     (case v of None \<Rightarrow> Deleted incarnation | Some b \<Rightarrow> Written b incarnation)"

text \<open>The key list recorded for an index (empty when none is recorded), and the
  invariant that ties the map to it: an entry at index \<open>i\<close> exists only under a key
  recorded in \<^verbatim>\<open>txWritesetKeys[i]\<close>.\<close>

definition writeset_keys :: "Store \<Rightarrow> int \<Rightarrow> string list" where
  "writeset_keys s i = (case txWritesetKeys s i of None \<Rightarrow> [] | Some keys \<Rightarrow> keys)"

definition writeset_recorded :: "Store \<Rightarrow> int \<Rightarrow> bool" where
  "writeset_recorded s i =
     (\<forall>key \<in> set (map fst (multiVersionMap s)).
        mv_entry s key i \<noteq> None \<longrightarrow> key \<in> set (writeset_keys s i))"

text \<open>The conflict rule of validation in the words of the specification: the latest
  entry before the index conflicts with the observed value when it is an estimate, a
  deletion while something was observed, or a written value with other bytes.\<close>

fun conflicting :: "entry \<Rightarrow> bytes option \<Rightarrow> bool" where
  "conflicting (Estimate k) observed = True"
| "conflicting (Deleted k) observed = (observed \<noteq> None)"
| "conflicting (Written v k) observed = (\<not> bytes_Equal (Some v) observed)"

definition read_conflicts :: "Store \<Rightarrow> int \<Rightarrow> ReadSet \<Rightarrow> int set" where
  "read_conflicts s i rs =
     {j. \<exists>kv \<in> set rs. \<exists>e. GetLatestBeforeIndex s i (fst kv) = Some (j, e) \<and> conflicting e (snd kv)}"


text \<open>A read that found nothing in the multiversion store before the index and
  disagrees with the parent store.\<close>

definition parent_conflict :: "Store \<Rightarrow> int \<Rightarrow> string \<times> bytes option \<Rightarrow> bool" where
  "parent_conflict s i kv =
     (GetLatestBeforeIndex s i (fst kv) = None \<and> \<not> bytes_Equal (parentStore s (fst kv)) (snd kv))"



section \<open>The scheduler\<close>

text \<open>
  The types the scheduler takes from other packages, as far as it uses them: a request
  and a response of the application interface, the abort a store view signals (the index
  it names), a store key, and the context, whose multistore lists its store keys and
  gives the key-value store of each.
\<close>

type_synonym StoreKey = string

record RequestDeliverTx =
  Tx :: bytes

record ResponseDeliverTx =
  Code :: nat
  Data :: bytes

type_synonym Abort = int

record Context =
  StoreKeys :: "StoreKey list"
  GetKVStore :: "StoreKey \<Rightarrow> KVStore"

text \<open>Modelled from the spec: \<^verbatim>\<open>VersionIndexedStore\<close> is not among the sources. The
  spec gives it as the view of one transaction index and incarnation over the parent
  store and the multiversion store, holding the index, the incarnation and local
  readset and writeset buffers; its writes go to the local writeset and touch neither
  the multiversion store nor the parent store.\<close>

record VersionIndexedStore =
  vis_index :: int
  vis_incarnation :: int
  vis_readset :: ReadSet
  vis_writeset :: WriteSet

text \<open>Modelled from the spec: a view is created for the current incarnation and index
  of its task, with empty buffers.\<close>

definition VersionedIndexedStore :: "int \<Rightarrow> int \<Rightarrow> VersionIndexedStore" where
  "VersionedIndexedStore inc idx =
     \<lparr>vis_index = idx, vis_incarnation = inc, vis_readset = [], vis_writeset = []\<rparr>"

text \<open>Modelled from the spec: at the end of a successful execution,
  \<^verbatim>\<open>WriteToMultiVersionStore()\<close> publishes \<open>set_readset(index, readset)\<close> then
  \<open>set_writeset(index, incarnation, writeset)\<close>.\<close>

definition WriteToMultiVersionStore :: "VersionIndexedStore \<Rightarrow> Store \<Rightarrow> Store" where
  "WriteToMultiVersionStore v mv =
     SetWriteset (vis_index v) (vis_incarnation v) (vis_writeset v)
       (SetReadset (vis_index v) (vis_readset v) mv)"

datatype status = statusPending | statusExecuted | statusAborted | statusValidated

record deliverTxTask =
  Status :: status
  Abort :: "Abort option"
  Index :: int
  Incarnation :: int
  Request :: RequestDeliverTx
  Response :: "ResponseDeliverTx option"
  VersionStores :: "(StoreKey \<times> VersionIndexedStore) list option"

definition Increment :: "deliverTxTask \<Rightarrow> deliverTxTask" where
  "Increment dt =
     dt\<lparr>Incarnation := Incarnation dt + 1, Status := statusPending, Response := None,
        Abort := None, VersionStores := None\<rparr>"

text \<open>
  The handler \<^verbatim>\<open>deliverTx\<close> is given to the scheduler and runs against the store views
  of its task. What the scheduler sees of a run is its outcome: an abort drained from the
  abort channel, or a response together with the readset and writeset each view has
  buffered. The outcome may depend on the multiversion stores at the time of the run.
  The second parameter of the environment says whether the context is cancelled when
  the task is handed over, which makes \<^verbatim>\<open>executeAll\<close> return the error.
\<close>

datatype outcome =
    Aborted Abort
  | Completed ResponseDeliverTx "StoreKey \<Rightarrow> ReadSet \<times> WriteSet"

record env =
  deliverTx :: "(StoreKey \<times> Store) list \<Rightarrow> deliverTxTask \<Rightarrow> outcome"
  cancelled :: "deliverTxTask \<Rightarrow> bool"

text \<open>The scheduler's map \<^verbatim>\<open>multiVersionStores\<close> is an association list; the tasks
  are a list and a pointer to a task is its position in that list.\<close>

definition invalidateTask :: "(StoreKey \<times> Store) list \<Rightarrow> deliverTxTask \<Rightarrow> (StoreKey \<times> Store) list" where
  "invalidateTask mvs task =
     map (\<lambda>(sk, mv). (sk, InvalidateWriteset (Index task) (Incarnation task) mv)) mvs"

definition add_conflict :: "int \<Rightarrow> int list \<Rightarrow> int list" where
  "add_conflict c conflicts = (if c \<in> set conflicts then conflicts else conflicts @ [c])"

fun findConflicts_stores :: "(StoreKey \<times> Store) list \<Rightarrow> int \<Rightarrow> int list \<Rightarrow> error + int list" where
  "findConflicts_stores [] index conflicts = Inr conflicts"
| "findConflicts_stores ((sk, mv) # mvs) index conflicts =
     (case ValidateTransactionState mv index of
        Inl e \<Rightarrow> Inl e
      | Inr mvConflicts \<Rightarrow> findConflicts_stores mvs index (fold add_conflict mvConflicts conflicts))"

definition findConflicts :: "(StoreKey \<times> Store) list \<Rightarrow> deliverTxTask \<Rightarrow> error + int list" where
  "findConflicts mvs task =
     (case findConflicts_stores mvs (Index task) [] of
        Inl e \<Rightarrow> Inl e
      | Inr conflicts \<Rightarrow> Inr (sort conflicts))"

definition toTasks :: "RequestDeliverTx list \<Rightarrow> deliverTxTask list" where
  "toTasks reqs =
     map (\<lambda>(idx, r). \<lparr>Status = statusPending, Abort = None, Index = int idx, Incarnation = 0,
                       Request = r, Response = None, VersionStores = None\<rparr>)
         (enumerate 0 reqs)"

fun collectResponses :: "deliverTxTask list \<Rightarrow> error + ResponseDeliverTx list" where
  "collectResponses [] = Inr []"
| "collectResponses (t # tasks) =
     (case Response t of
        None \<Rightarrow> Inl PanicNilResponse
      | Some r \<Rightarrow>
          (case collectResponses tasks of
             Inl e \<Rightarrow> Inl e
           | Inr res \<Rightarrow> Inr (r # res)))"

definition initMultiVersionStore :: "Context \<Rightarrow> (StoreKey \<times> Store) list" where
  "initMultiVersionStore ctx =
     fold (\<lambda>sk mvs. AList.update sk (NewMultiVersionStore (GetKVStore ctx sk)) mvs) (StoreKeys ctx) []"

text \<open>\<^verbatim>\<open>done\<close>: every task is validated.\<close>

definition done_tasks :: "deliverTxTask list \<Rightarrow> bool" where
  "done_tasks tasks = list_all (\<lambda>t. Status t = statusValidated) tasks"

text \<open>\<^verbatim>\<open>validateAll\<close>: the loop over the positions of the tasks, with the tasks to
  execute again collected in \<open>res\<close>.\<close>

fun validateAll_from ::
  "nat list \<Rightarrow> (StoreKey \<times> Store) list \<Rightarrow> deliverTxTask list \<Rightarrow> nat list \<Rightarrow>
   error + (nat list \<times> (StoreKey \<times> Store) list \<times> deliverTxTask list)" where
  "validateAll_from [] mvs tasks res = Inr (res, mvs, tasks)"
| "validateAll_from (i # is) mvs tasks res =
     (if Status (tasks ! i) = statusAborted then validateAll_from is mvs tasks (res @ [i])
      else
        (case findConflicts mvs (tasks ! i) of
           Inl e \<Rightarrow> Inl e
         | Inr conflicts \<Rightarrow>
             (if length conflicts > 0 then
                validateAll_from is (invalidateTask mvs (tasks ! i)) tasks (res @ [i])
              else
                validateAll_from is mvs (tasks[i := (tasks ! i)\<lparr>Status := statusValidated\<rparr>]) res)))"

definition validateAll ::
  "(StoreKey \<times> Store) list \<Rightarrow> deliverTxTask list \<Rightarrow>
   error + (nat list \<times> (StoreKey \<times> Store) list \<times> deliverTxTask list)" where
  "validateAll mvs tasks = validateAll_from [0..<length tasks] mvs tasks []"

text \<open>
  \<^verbatim>\<open>executeAll\<close> hands the tasks to a pool of workers. The model is the schedule of one
  worker: the tasks run one after the other in the order in which the producer sends
  them. For each task the producer creates a fresh view per store key; the worker runs
  the handler and either marks the task aborted or publishes every view to its
  multiversion store and marks the task executed.
\<close>

definition prepare_task :: "(StoreKey \<times> Store) list \<Rightarrow> deliverTxTask \<Rightarrow> deliverTxTask" where
  "prepare_task mvs task =
     task\<lparr>VersionStores :=
            Some (map (\<lambda>(storeKey, mv). (storeKey, VersionedIndexedStore (Incarnation task) (Index task))) mvs)\<rparr>"

definition fill_view ::
  "(StoreKey \<Rightarrow> ReadSet \<times> WriteSet) \<Rightarrow> StoreKey \<Rightarrow> VersionIndexedStore \<Rightarrow> VersionIndexedStore" where
  "fill_view bufs sk v = v\<lparr>vis_readset := fst (bufs sk), vis_writeset := snd (bufs sk)\<rparr>"

definition publish_views ::
  "(StoreKey \<times> VersionIndexedStore) list \<Rightarrow> (StoreKey \<times> Store) list \<Rightarrow> (StoreKey \<times> Store) list" where
  "publish_views vs mvs =
     map (\<lambda>(sk, mv). (sk, case map_of vs sk of None \<Rightarrow> mv | Some v \<Rightarrow> WriteToMultiVersionStore v mv)) mvs"

fun executeAll_from ::
  "env \<Rightarrow> nat list \<Rightarrow> (StoreKey \<times> Store) list \<Rightarrow> deliverTxTask list \<Rightarrow>
   error + ((StoreKey \<times> Store) list \<times> deliverTxTask list)" where
  "executeAll_from e [] mvs tasks = Inr (mvs, tasks)"
| "executeAll_from e (p # ps) mvs tasks =
     (let task = prepare_task mvs (tasks ! p) in
      if cancelled e task then Inl ContextCanceled
      else
        (case deliverTx e mvs task of
           Aborted abt \<Rightarrow>
             executeAll_from e ps mvs (tasks[p := task\<lparr>Status := statusAborted, Abort := Some abt\<rparr>])
         | Completed resp bufs \<Rightarrow>
             (let vs = map (\<lambda>(sk, v). (sk, fill_view bufs sk v))
                           (case VersionStores task of None \<Rightarrow> [] | Some vs \<Rightarrow> vs)
              in executeAll_from e ps (publish_views vs mvs)
                   (tasks[p := task\<lparr>VersionStores := Some vs, Status := statusExecuted,
                                    Response := Some resp\<rparr>]))))"

definition executeAll ::
  "env \<Rightarrow> (StoreKey \<times> Store) list \<Rightarrow> deliverTxTask list \<Rightarrow> nat list \<Rightarrow>
   error + ((StoreKey \<times> Store) list \<times> deliverTxTask list)" where
  "executeAll e mvs tasks toExecute = executeAll_from e toExecute mvs tasks"

definition increment_all :: "nat list \<Rightarrow> deliverTxTask list \<Rightarrow> deliverTxTask list" where
  "increment_all toExecute tasks = fold (\<lambda>p ts. ts[p := Increment (ts ! p)]) toExecute tasks"

text \<open>
  \<^verbatim>\<open>ProcessAll\<close>. The loop runs until every task is validated, which need not happen:
  the first argument bounds the number of rounds and the result is \<open>None\<close> when it is
  used up. A returned result is the error, or the responses; the multiversion stores
  the scheduler is left with (and, inside them, the parent stores) are returned with
  the responses.
\<close>

definition finish ::
  "(StoreKey \<times> Store) list \<Rightarrow> deliverTxTask list \<Rightarrow>
   error + (ResponseDeliverTx list \<times> (StoreKey \<times> Store) list)" where
  "finish mvs tasks =
     (case collectResponses tasks of Inl e \<Rightarrow> Inl e | Inr res \<Rightarrow> Inr (res, mvs))"

definition round ::
  "env \<Rightarrow> (StoreKey \<times> Store) list \<Rightarrow> deliverTxTask list \<Rightarrow> nat list \<Rightarrow>
   error + (nat list \<times> (StoreKey \<times> Store) list \<times> deliverTxTask list)" where
  "round e mvs tasks toExecute =
     (case (if length toExecute > 0 then executeAll e mvs tasks toExecute else Inr (mvs, tasks)) of
        Inl err \<Rightarrow> Inl err
      | Inr (mvs1, tasks1) \<Rightarrow>
          (case validateAll mvs1 tasks1 of
             Inl err \<Rightarrow> Inl err
           | Inr (toExecute', mvs2, tasks2) \<Rightarrow>
               Inr (toExecute', mvs2, increment_all toExecute' tasks2)))"

fun ProcessAll_loop ::
  "nat \<Rightarrow> env \<Rightarrow> (StoreKey \<times> Store) list \<Rightarrow> deliverTxTask list \<Rightarrow> nat list \<Rightarrow>
   (error + (ResponseDeliverTx list \<times> (StoreKey \<times> Store) list)) option" where
  "ProcessAll_loop 0 e mvs tasks toExecute =
     (if done_tasks tasks then Some (finish mvs tasks) else None)"
| "ProcessAll_loop (Suc n) e mvs tasks toExecute =
     (if done_tasks tasks then Some (finish mvs tasks)
      else
        (case round e mvs tasks toExecute of
           Inl err \<Rightarrow> Some (Inl err)
         | Inr (toExecute', mvs', tasks') \<Rightarrow> ProcessAll_loop n e mvs' tasks' toExecute'))"

definition ProcessAll ::
  "nat \<Rightarrow> env \<Rightarrow> Context \<Rightarrow> RequestDeliverTx list \<Rightarrow>
   (error + (ResponseDeliverTx list \<times> (StoreKey \<times> Store) list)) option" where
  "ProcessAll fuel e ctx reqs =
     (let mvs = initMultiVersionStore ctx;
          tasks = toTasks reqs;
          toExecute = [0..<length tasks]
      in ProcessAll_loop fuel e mvs tasks toExecute)"

text \<open>
  \<^verbatim>\<open>PrefillEstimates\<close> takes the entries of the batch, each a request with the
  estimated writesets per store key. Calling a method of the store of a key that the
  scheduler has no store for is a nil dereference.
\<close>

record DeliverTxEntry =
  EntryRequest :: RequestDeliverTx
  EstimatedWritesets :: "(StoreKey \<times> WriteSet) list"

fun PrefillEstimates_req ::
  "int \<Rightarrow> (StoreKey \<times> WriteSet) list \<Rightarrow> (StoreKey \<times> Store) list \<Rightarrow> error + (StoreKey \<times> Store) list" where
  "PrefillEstimates_req i [] mvs = Inr mvs"
| "PrefillEstimates_req i ((storeKey, writeset) # mappedWritesets) mvs =
     (case map_of mvs storeKey of
        None \<Rightarrow> Inl PanicNilStore
      | Some mv \<Rightarrow>
          PrefillEstimates_req i mappedWritesets
            (AList.update storeKey (SetEstimatedWriteset i (- 1) writeset mv) mvs))"

fun PrefillEstimates_from ::
  "int \<Rightarrow> DeliverTxEntry list \<Rightarrow> (StoreKey \<times> Store) list \<Rightarrow> error + (StoreKey \<times> Store) list" where
  "PrefillEstimates_from i [] mvs = Inr mvs"
| "PrefillEstimates_from i (req # reqs) mvs =
     (case PrefillEstimates_req i (EstimatedWritesets req) mvs of
        Inl e \<Rightarrow> Inl e
      | Inr mvs' \<Rightarrow> PrefillEstimates_from (i + 1) reqs mvs')"

definition PrefillEstimates ::
  "DeliverTxEntry list \<Rightarrow> (StoreKey \<times> Store) list \<Rightarrow> error + (StoreKey \<times> Store) list" where
  "PrefillEstimates reqs mvs = PrefillEstimates_from 0 reqs mvs"

section \<open>Views of the scheduler's stores and an example batch\<close>




definition entry_view :: "string \<Rightarrow> int \<Rightarrow> (StoreKey \<times> Store) list \<Rightarrow> (StoreKey \<times> entry option) list" where
  "entry_view key i mvs = map (\<lambda>(sk, mv). (sk, mv_entry mv key i)) mvs"

text \<open>What seeding does to the store of one store key, in the words of the
  specification: for each request index in turn, if the request has an estimated
  writeset for the store key, \<open>set_estimated_writeset(i, -1, writeset)\<close>.\<close>

definition seed_request :: "int \<Rightarrow> (StoreKey \<times> WriteSet) list \<Rightarrow> StoreKey \<Rightarrow> Store \<Rightarrow> Store" where
  "seed_request i wss sk mv =
     (case map_of wss sk of None \<Rightarrow> mv | Some ws \<Rightarrow> SetEstimatedWriteset i (- 1) ws mv)"

fun seed_store :: "StoreKey \<Rightarrow> int \<Rightarrow> DeliverTxEntry list \<Rightarrow> Store \<Rightarrow> Store" where
  "seed_store sk i [] mv = mv"
| "seed_store sk i (req # reqs) mv =
     seed_store sk (i + 1) reqs (seed_request i (EstimatedWritesets req) sk mv)"

text \<open>
  The example batch has one store, \<open>bank\<close>, with an empty parent store, and two
  requests. The first transaction writes \<open>a = 1\<close>. The second aborts on its first run
  and on a later run reads \<open>a\<close> (the latest value before its index, else the parent's),
  returns it and writes it to \<open>b\<close>. The entries of the batch give the first request an
  estimated writeset for \<open>a\<close>.
\<close>

definition example_ctx :: Context where
  "example_ctx = \<lparr>StoreKeys = [''bank''], GetKVStore = (\<lambda>sk. Map.empty)\<rparr>"

definition example_handler :: "(StoreKey \<times> Store) list \<Rightarrow> deliverTxTask \<Rightarrow> outcome" where
  "example_handler mvs task =
     (if Index task = 0 then
        Completed \<lparr>Code = 0, Data = []\<rparr> (\<lambda>sk. ([], [(''a'', Some ''1'')]))
      else if Incarnation task = 0 then Aborted 0
      else
        (case map_of mvs ''bank'' of
           None \<Rightarrow> Aborted 0
         | Some mv \<Rightarrow>
             (let v = (case GetLatestBeforeIndex mv (Index task) ''a'' of
                         Some it \<Rightarrow> Value it
                       | None \<Rightarrow> parentStore mv ''a'')
              in Completed \<lparr>Code = 0, Data = contents v\<rparr> (\<lambda>sk. ([(''a'', v)], [(''b'', v)])))))"

definition example_env :: env where
  "example_env = \<lparr>deliverTx = example_handler, cancelled = (\<lambda>t. False)\<rparr>"

definition example_entries :: "DeliverTxEntry list" where
  "example_entries =
     [\<lparr>EntryRequest = \<lparr>Tx = ''t0''\<rparr>, EstimatedWritesets = [(''bank'', [(''a'', None)])]\<rparr>,
      \<lparr>EntryRequest = \<lparr>Tx = ''t1''\<rparr>, EstimatedWritesets = []\<rparr>]"


section \<open>Example states\<close>

text \<open>Index 0 has written \<open>a\<close> and deleted \<open>b\<close>; index 1 has read \<open>a\<close> as \<open>1\<close>, \<open>b\<close> as
  absent and \<open>c\<close> from the parent store.\<close>

definition example_parent :: KVStore where
  "example_parent = [''c'' \<mapsto> ''x'']"

definition example_written :: Store where
  "example_written =
     SetWriteset 0 0 [(''a'', Some ''2''), (''b'', None)] (NewMultiVersionStore example_parent)"

definition example_store :: Store where
  "example_store =
     SetReadset 1 [(''a'', Some ''1''), (''b'', None), (''c'', Some ''x'')] example_written"

definition example_stale :: Store where
  "example_stale =
     SetReadset 1 [(''a'', Some ''2''), (''c'', Some ''y'')] example_written"

text \<open>Index 0 has written \<open>a\<close> and index 1 has written \<open>b\<close>; index 2 has read both as
  \<open>1\<close>. The two states hold the same maps, ranged over in different orders: the
  writesets were published in the other order and the readset lists its keys in the
  other order.\<close>

definition example_ab :: Store where
  "example_ab =
     SetReadset 2 [(''a'', Some ''1''), (''b'', Some ''1'')]
       (SetWriteset 1 0 [(''b'', Some ''3'')]
         (SetWriteset 0 0 [(''a'', Some ''2'')] (NewMultiVersionStore example_parent)))"

definition example_ba :: Store where
  "example_ba =
     SetReadset 2 [(''b'', Some ''1''), (''a'', Some ''1'')]
       (SetWriteset 0 0 [(''a'', Some ''2'')]
         (SetWriteset 1 0 [(''b'', Some ''3'')] (NewMultiVersionStore example_parent)))"

section \<open>Entries of the multiversion map under the store operations\<close>

lemma contents_simps: "contents None = []" "contents (Some x) = x"
  by (simp_all add: contents_def)

lemma last_option_Some_mem: "last_option xs = Some x \<Longrightarrow> x \<in> set xs"
  by (cases "rev xs") (auto simp: last_option_def dest: arg_cong[where f=set])

lemma map_of_put_entry: "map_of (put_entry i e xs) = (map_of xs)(i \<mapsto> e)"
  by (induction xs) (auto simp: fun_eq_iff)

lemma map_of_Item_Remove: "map_of (Item_Remove i xs) = (map_of xs)(i := None)"
  by (induction xs) (auto simp: Item_Remove_def fun_eq_iff)

lemma map_of_tryInit:
  "map_of (tryInitMultiVersionItem key mvm) k =
     (if k = key \<and> map_of mvm key = None then Some [] else map_of mvm k)"
  by (auto simp: tryInitMultiVersionItem_def NewMultiVersionItem_def AList.update_conv'
      split: option.splits)

lemma map_of_on_item:
  "map_of (on_item key f mvm) k =
     (if k = key then map_option f (map_of mvm key) else map_of mvm k)"
  by (auto simp: on_item_def AList.update_conv' split: option.splits)

lemma entry_at_InvalidateWriteset_key:
  "entry_at (InvalidateWriteset_key i inc key mvm) k j =
     (if k = key \<and> j = i then Some (Estimate inc) else entry_at mvm k j)"
  by (auto simp: entry_at_def InvalidateWriteset_key_def map_of_on_item map_of_tryInit
      Item_SetEstimate_def map_of_put_entry split: option.splits)

lemma entry_at_fold_Invalidate:
  "entry_at (fold (InvalidateWriteset_key i inc) keys mvm) k j =
     (if k \<in> set keys \<and> j = i then Some (Estimate inc) else entry_at mvm k j)"
  by (induction keys arbitrary: mvm) (auto simp: entry_at_InvalidateWriteset_key)

lemma entry_at_removeOld_key:
  "entry_at (removeOldWriteset_key i ws key mvm) k j =
     (if k = key \<and> key \<notin> fst ` set ws \<and> j = i then None else entry_at mvm k j)"
  by (auto simp: entry_at_def removeOldWriteset_key_def map_of_on_item map_of_Item_Remove
      split: option.splits)

lemma entry_at_fold_removeOld:
  "entry_at (fold (removeOldWriteset_key i ws) keys mvm) k j =
     (if k \<in> set keys \<and> k \<notin> fst ` set ws \<and> j = i then None else entry_at mvm k j)"
  by (induction keys arbitrary: mvm) (auto simp: entry_at_removeOld_key)

lemma entry_at_SetWriteset_entry:
  "entry_at (SetWriteset_entry i inc kv mvm) k j =
     (if k = fst kv \<and> j = i then Some (entry_of_write inc (snd kv)) else entry_at mvm k j)"
  by (auto simp: entry_at_def SetWriteset_entry_def map_of_on_item map_of_tryInit Item_Set_def
      Item_Delete_def entry_of_write_def map_of_put_entry split: option.splits)

lemma entry_at_fold_SetWriteset:
  "entry_at (fold (SetWriteset_entry i inc) ws mvm) k j =
     (case map_of (rev ws) k of
        Some v \<Rightarrow> if j = i then Some (entry_of_write inc v) else entry_at mvm k j
      | None \<Rightarrow> entry_at mvm k j)"
proof (induction ws rule: rev_induct)
  case Nil
  then show ?case by simp
next
  case (snoc kv ws)
  then show ?case
    by (cases kv) (auto simp: entry_at_SetWriteset_entry split: option.splits)
qed

lemma entry_at_fold_SetEstimated:
  "entry_at (fold (\<lambda>kv. InvalidateWriteset_key i inc (fst kv)) ws mvm) k j =
     (if k \<in> fst ` set ws \<and> j = i then Some (Estimate inc) else entry_at mvm k j)"
  by (induction ws arbitrary: mvm) (auto simp: entry_at_InvalidateWriteset_key)

lemma mv_entry_absent: "key \<notin> fst ` set (multiVersionMap s) \<Longrightarrow> mv_entry s key i = None"
  by (simp add: mv_entry_def entry_at_def map_of_eq_None_iff[symmetric] del: map_of_eq_None_iff)

lemma writeset_recorded_iff:
  "writeset_recorded s i \<longleftrightarrow> (\<forall>key. mv_entry s key i \<noteq> None \<longrightarrow> key \<in> set (writeset_keys s i))"
proof
  assume r: "writeset_recorded s i"
  show "\<forall>key. mv_entry s key i \<noteq> None \<longrightarrow> key \<in> set (writeset_keys s i)"
  proof (intro allI impI)
    fix key assume e: "mv_entry s key i \<noteq> None"
    have "key \<in> fst ` set (multiVersionMap s)"
    proof (rule ccontr)
      assume n: "key \<notin> fst ` set (multiVersionMap s)"
      from mv_entry_absent[OF n, of i] e show False by simp
    qed
    with r e show "key \<in> set (writeset_keys s i)"
      by (auto simp: writeset_recorded_def)
  qed
next
  assume "\<forall>key. mv_entry s key i \<noteq> None \<longrightarrow> key \<in> set (writeset_keys s i)"
  then show "writeset_recorded s i"
    by (simp add: writeset_recorded_def)
qed

lemma mv_entry_removeOldWriteset:
  "mv_entry (removeOldWriteset i ws s) key j =
     (if key \<in> set (writeset_keys s i) \<and> key \<notin> fst ` set ws \<and> j = i then None
      else mv_entry s key j)"
  by (cases "txWritesetKeys s i")
     (simp_all add: removeOldWriteset_def mv_entry_def writeset_keys_def entry_at_fold_removeOld)

lemma txWritesetKeys_SetWriteset:
  "txWritesetKeys (SetWriteset i k ws s) = (txWritesetKeys s)(i \<mapsto> sort (map fst ws))"
  by (simp add: SetWriteset_def removeOldWriteset_def Let_def)

lemma txWritesetKeys_SetEstimatedWriteset:
  "txWritesetKeys (SetEstimatedWriteset i k ws s) = (txWritesetKeys s)(i \<mapsto> sort (map fst ws))"
  by (simp add: SetEstimatedWriteset_def removeOldWriteset_def Let_def)

lemma map_of_rev_None: "map_of (rev ws) key = None \<longleftrightarrow> key \<notin> fst ` set ws"
  by (simp add: map_of_eq_None_iff)

lemma map_of_rev_notin: "key \<notin> fst ` set ws \<Longrightarrow> map_of (rev ws) key = None"
  by (simp add: map_of_eq_None_iff)

lemma map_of_rev_distinct:
  "distinct (map fst ws) \<Longrightarrow> (key, v) \<in> set ws \<Longrightarrow> map_of (rev ws) key = Some v"
  by (simp add: rev_map[symmetric])

lemma mv_entry_SetWriteset:
  "mv_entry (SetWriteset i k ws s) key j =
     (if j = i then
        (case map_of (rev ws) key of
           Some v \<Rightarrow> Some (entry_of_write k v)
         | None \<Rightarrow> if key \<in> set (writeset_keys s i) then None else mv_entry s key i)
      else mv_entry s key j)"
proof -
  have "mv_entry (SetWriteset i k ws s) key j =
      entry_at (fold (SetWriteset_entry i k) ws (multiVersionMap (removeOldWriteset i ws s))) key j"
    by (simp add: SetWriteset_def mv_entry_def Let_def)
  also have "\<dots> = (case map_of (rev ws) key of
        Some v \<Rightarrow> if j = i then Some (entry_of_write k v) else mv_entry (removeOldWriteset i ws s) key j
      | None \<Rightarrow> mv_entry (removeOldWriteset i ws s) key j)"
    unfolding mv_entry_def by (simp add: entry_at_fold_SetWriteset)
  finally show ?thesis
    using map_of_rev_None[of ws key]
    by (auto simp: mv_entry_removeOldWriteset split: option.splits)
qed

lemma mv_entry_SetEstimatedWriteset:
  "mv_entry (SetEstimatedWriteset i k ws s) key j =
     (if j = i then
        (if key \<in> fst ` set ws then Some (Estimate k)
         else if key \<in> set (writeset_keys s i) then None else mv_entry s key i)
      else mv_entry s key j)"
proof -
  have "mv_entry (SetEstimatedWriteset i k ws s) key j =
      entry_at (fold (\<lambda>kv. InvalidateWriteset_key i k (fst kv)) ws
                  (multiVersionMap (removeOldWriteset i ws s))) key j"
    by (simp add: SetEstimatedWriteset_def mv_entry_def Let_def)
  also have "\<dots> = (if key \<in> fst ` set ws \<and> j = i then Some (Estimate k)
                    else mv_entry (removeOldWriteset i ws s) key j)"
    unfolding mv_entry_def by (simp add: entry_at_fold_SetEstimated)
  finally show ?thesis
    by (auto simp: mv_entry_removeOldWriteset)
qed

lemma mv_entry_InvalidateWriteset:
  "mv_entry (InvalidateWriteset i k s) key idx =
     (if idx = i \<and> key \<in> set (writeset_keys s i) then Some (Estimate k) else mv_entry s key idx)"
  by (cases "txWritesetKeys s i")
     (auto simp: InvalidateWriteset_def mv_entry_def writeset_keys_def entry_at_fold_Invalidate)

lemma txWritesetKeys_InvalidateWriteset:
  "txWritesetKeys (InvalidateWriteset i k s) = txWritesetKeys s"
  by (cases "txWritesetKeys s i") (simp_all add: InvalidateWriteset_def)

subsection \<open>The recorded-writeset invariant holds in every reachable state\<close>

lemma writeset_recorded_New: "writeset_recorded (NewMultiVersionStore parent) i"
  by (simp add: writeset_recorded_def NewMultiVersionStore_def)

lemma writeset_recorded_SetWriteset:
  assumes "writeset_recorded s j"
  shows "writeset_recorded (SetWriteset i k ws s) j"
proof (cases "j = i")
  case False
  with assms show ?thesis
    by (simp add: writeset_recorded_iff mv_entry_SetWriteset writeset_keys_def
        txWritesetKeys_SetWriteset)
next
  case True
  have "key \<in> fst ` set ws" if "mv_entry (SetWriteset i k ws s) key i \<noteq> None" for key
  proof (rule ccontr)
    assume n: "key \<notin> fst ` set ws"
    then have "mv_entry (SetWriteset i k ws s) key i =
        (if key \<in> set (writeset_keys s i) then None else mv_entry s key i)"
      by (simp add: mv_entry_SetWriteset map_of_rev_notin)
    with that assms True show False
      by (auto simp: writeset_recorded_iff split: if_splits)
  qed
  then show ?thesis
    by (auto simp: True writeset_recorded_iff writeset_keys_def txWritesetKeys_SetWriteset)
qed

lemma writeset_recorded_SetEstimatedWriteset:
  assumes "writeset_recorded s j"
  shows "writeset_recorded (SetEstimatedWriteset i k ws s) j"
proof (cases "j = i")
  case False
  with assms show ?thesis
    by (simp add: writeset_recorded_iff mv_entry_SetEstimatedWriteset writeset_keys_def
        txWritesetKeys_SetEstimatedWriteset)
next
  case True
  have "key \<in> fst ` set ws" if "mv_entry (SetEstimatedWriteset i k ws s) key i \<noteq> None" for key
  proof (rule ccontr)
    assume n: "key \<notin> fst ` set ws"
    then have "mv_entry (SetEstimatedWriteset i k ws s) key i =
        (if key \<in> set (writeset_keys s i) then None else mv_entry s key i)"
      by (simp add: mv_entry_SetEstimatedWriteset)
    with that assms True show False
      by (auto simp: writeset_recorded_iff split: if_splits)
  qed
  then show ?thesis
    by (auto simp: True writeset_recorded_iff writeset_keys_def txWritesetKeys_SetEstimatedWriteset)
qed

lemma writeset_recorded_InvalidateWriteset:
  assumes "writeset_recorded s j"
  shows "writeset_recorded (InvalidateWriteset i k s) j"
  using assms
  by (auto simp: writeset_recorded_iff mv_entry_InvalidateWriteset writeset_keys_def
      txWritesetKeys_InvalidateWriteset split: if_splits)

lemma writeset_recorded_SetReadset:
  "writeset_recorded s j \<Longrightarrow> writeset_recorded (SetReadset i rs s) j"
  by (simp add: writeset_recorded_def SetReadset_def mv_entry_def writeset_keys_def)

lemma writeset_recorded_WriteLatestToStore:
  "writeset_recorded s j \<Longrightarrow> WriteLatestToStore s = Inr s' \<Longrightarrow> writeset_recorded s' j"
proof -
  assume r: "writeset_recorded s j" and w: "WriteLatestToStore s = Inr s'"
  from w obtain p where "s' = s\<lparr>parentStore := p\<rparr>"
    by (auto simp: WriteLatestToStore_def Let_def split: sum.splits)
  then have "multiVersionMap s' = multiVersionMap s" "txWritesetKeys s' = txWritesetKeys s"
    by simp_all
  with r show "writeset_recorded s' j"
    by (simp add: writeset_recorded_def mv_entry_def writeset_keys_def)
qed

lemma parentStore_removeOldWriteset: "parentStore (removeOldWriteset i ws s) = parentStore s"
  by (simp add: removeOldWriteset_def Let_def)

lemma parentStore_SetWriteset: "parentStore (SetWriteset i k ws s) = parentStore s"
  by (simp add: SetWriteset_def Let_def parentStore_removeOldWriteset)

lemma parentStore_SetReadset: "parentStore (SetReadset i rs s) = parentStore s"
  by (simp add: SetReadset_def)

section \<open>The versioned values stay in index order\<close>

lemma fst_set_put_entry: "fst ` set (put_entry i e xs) = insert i (fst ` set xs)"
  by (simp add: dom_map_of_conv_image_fst[symmetric] map_of_put_entry)

lemma item_sorted_put_entry: "item_sorted xs \<Longrightarrow> item_sorted (put_entry i e xs)"
proof (induction xs)
  case Nil
  then show ?case by (simp add: item_sorted_def)
next
  case (Cons p xs)
  obtain j f where p: "p = (j, f)" by (cases p)
  from Cons.prems have tl: "item_sorted xs" and hd: "\<forall>x \<in> fst ` set xs. j < x"
    by (auto simp: item_sorted_def p)
  show ?case
  proof (cases "i < j")
    case True
    with Cons.prems hd show ?thesis by (auto simp: item_sorted_def p)
  next
    case False
    show ?thesis
    proof (cases "i = j")
      case True
      with Cons.prems show ?thesis by (auto simp: item_sorted_def p)
    next
      case ne: False
      with False have "j < i" by simp
      moreover from Cons.IH[OF tl] have "sorted_wrt (<) (map fst (put_entry i e xs))"
        by (simp add: item_sorted_def)
      ultimately show ?thesis
        using False ne hd fst_set_put_entry[of i e xs]
        by (auto simp: item_sorted_def p)
    qed
  qed
qed

lemma item_sorted_Item_Remove: "item_sorted xs \<Longrightarrow> item_sorted (Item_Remove i xs)"
proof -
  have "map fst (filter (\<lambda>it. fst it \<noteq> i) xs) = filter (\<lambda>j. j \<noteq> i) (map fst xs)"
    by (induction xs) auto
  then show "item_sorted xs \<Longrightarrow> item_sorted (Item_Remove i xs)"
    by (simp add: item_sorted_def Item_Remove_def sorted_wrt_filter)
qed

lemma item_sorted_distinct: "item_sorted xs \<Longrightarrow> distinct (map fst xs)"
  by (simp add: item_sorted_def strict_sorted_iff)

lemma sorted_last_greatest:
  fixes ys :: "(int \<times> 'a) list"
  shows "sorted_wrt (<) (map fst ys) \<Longrightarrow> y \<in> set ys \<Longrightarrow> fst y \<le> fst (last ys)"
proof (induction ys)
  case Nil
  then show ?case by simp
next
  case (Cons z ys)
  show ?case
  proof (cases "ys = []")
    case True
    with Cons.prems show ?thesis by simp
  next
    case False
    then have l: "last ys \<in> set ys" by simp
    from Cons.prems have z: "fst z < fst (last ys)" using l by auto
    show ?thesis
    proof (cases "y = z")
      case True
      with z False show ?thesis by simp
    next
      case ne: False
      with Cons.prems have "y \<in> set ys" "sorted_wrt (<) (map fst ys)" by auto
      with Cons.IH False show ?thesis by simp
    qed
  qed
qed

lemma last_option_Some_iff: "last_option xs = Some x \<longleftrightarrow> xs \<noteq> [] \<and> last xs = x"
  by (cases xs rule: rev_cases) (simp_all add: last_option_def)

lemma last_option_None_iff: "last_option xs = None \<longleftrightarrow> xs = []"
  by (cases xs rule: rev_cases) (simp_all add: last_option_def)

lemma last_option_filter_greatest:
  assumes "item_sorted xs" "last_option (filter P xs) = Some it"
  shows "it \<in> set xs \<and> P it \<and> (\<forall>it' \<in> set xs. P it' \<longrightarrow> fst it' \<le> fst it)"
proof -
  from assms(2) have ne: "filter P xs \<noteq> []" and l: "last (filter P xs) = it"
    by (simp_all add: last_option_Some_iff)
  then have m: "it \<in> set (filter P xs)" using last_in_set by blast
  have s: "sorted_wrt (<) (map fst (filter P xs))"
    using assms(1) by (simp add: item_sorted_def sorted_wrt_map sorted_wrt_filter)
  have "\<forall>it' \<in> set xs. P it' \<longrightarrow> fst it' \<le> fst it"
    using sorted_last_greatest[OF s] l by auto
  with m show ?thesis by simp
qed

lemma list_all_update:
  "list_all P al \<Longrightarrow> P (k, v) \<Longrightarrow> list_all P (AList.update k v al)"
  by (induction al) auto

lemma sorted_tryInit:
  "list_all (\<lambda>(key, item). item_sorted item) mvm \<Longrightarrow>
   list_all (\<lambda>(key, item). item_sorted item) (tryInitMultiVersionItem k mvm)"
  by (auto simp: tryInitMultiVersionItem_def NewMultiVersionItem_def item_sorted_def
      intro!: list_all_update split: option.splits)

lemma sorted_on_item:
  assumes "list_all (\<lambda>(key, item). item_sorted item) mvm"
    and "\<And>item. item_sorted item \<Longrightarrow> item_sorted (f item)"
  shows "list_all (\<lambda>(key, item). item_sorted item) (on_item k f mvm)"
proof (cases "map_of mvm k")
  case None
  with assms(1) show ?thesis by (simp add: on_item_def)
next
  case (Some item)
  then have "(k, item) \<in> set mvm" by (rule map_of_SomeD)
  with assms(1) have "item_sorted item" by (auto simp: list_all_iff)
  with assms show ?thesis by (simp add: on_item_def Some list_all_update)
qed

lemma sorted_fold:
  assumes "\<And>x m. list_all (\<lambda>(key, item). item_sorted item) m \<Longrightarrow>
                  list_all (\<lambda>(key, item). item_sorted item) (f x m)"
    and "list_all (\<lambda>(key, item). item_sorted item) mvm"
  shows "list_all (\<lambda>(key, item). item_sorted item) (fold f xs mvm)"
  using assms(2) by (induction xs arbitrary: mvm) (simp_all add: assms(1))

lemma sorted_removeOldWriteset_key:
  "list_all (\<lambda>(key, item). item_sorted item) m \<Longrightarrow>
   list_all (\<lambda>(key, item). item_sorted item) (removeOldWriteset_key i ws k m)"
  by (simp add: removeOldWriteset_key_def sorted_on_item item_sorted_Item_Remove)

lemma sorted_SetWriteset_entry:
  "list_all (\<lambda>(key, item). item_sorted item) m \<Longrightarrow>
   list_all (\<lambda>(key, item). item_sorted item) (SetWriteset_entry i k kv m)"
  by (cases "snd kv")
     (simp_all add: SetWriteset_entry_def sorted_on_item sorted_tryInit Item_Set_def
       Item_Delete_def item_sorted_put_entry)

lemma sorted_InvalidateWriteset_key:
  "list_all (\<lambda>(key, item). item_sorted item) m \<Longrightarrow>
   list_all (\<lambda>(key, item). item_sorted item) (InvalidateWriteset_key i k key m)"
  by (simp add: InvalidateWriteset_key_def sorted_on_item sorted_tryInit Item_SetEstimate_def
      item_sorted_put_entry)

lemma store_sorted_New: "store_sorted (NewMultiVersionStore parent)"
  by (simp add: store_sorted_def NewMultiVersionStore_def)

lemma store_sorted_removeOldWriteset:
  "store_sorted s \<Longrightarrow> store_sorted (removeOldWriteset i ws s)"
  by (cases "txWritesetKeys s i")
     (simp_all add: store_sorted_def removeOldWriteset_def sorted_fold sorted_removeOldWriteset_key)

lemma store_sorted_SetWriteset: "store_sorted s \<Longrightarrow> store_sorted (SetWriteset i k ws s)"
  using store_sorted_removeOldWriteset[of s i ws]
  by (simp add: store_sorted_def SetWriteset_def Let_def sorted_fold sorted_SetWriteset_entry)

lemma store_sorted_SetEstimatedWriteset:
  "store_sorted s \<Longrightarrow> store_sorted (SetEstimatedWriteset i k ws s)"
  using store_sorted_removeOldWriteset[of s i ws]
  by (simp add: store_sorted_def SetEstimatedWriteset_def Let_def sorted_fold
      sorted_InvalidateWriteset_key)

lemma store_sorted_InvalidateWriteset:
  "store_sorted s \<Longrightarrow> store_sorted (InvalidateWriteset i k s)"
  by (cases "txWritesetKeys s i")
     (simp_all add: store_sorted_def InvalidateWriteset_def sorted_fold sorted_InvalidateWriteset_key)

lemma store_sorted_SetReadset: "store_sorted s \<Longrightarrow> store_sorted (SetReadset i rs s)"
  by (simp add: store_sorted_def SetReadset_def)

lemma store_sorted_WriteLatestToStore:
  "store_sorted s \<Longrightarrow> WriteLatestToStore s = Inr s' \<Longrightarrow> store_sorted s'"
  by (auto simp: store_sorted_def WriteLatestToStore_def Let_def split: sum.splits)

text \<open>In a store whose items are in index order, \<^verbatim>\<open>GetLatestBeforeIndex\<close> gives the
  entry at the greatest index below the given one, and nothing only when no entry lies
  below it.\<close>

lemma GetLatestBeforeIndex_greatest:
  assumes "store_sorted s" "GetLatestBeforeIndex s i key = Some (j, e)"
  shows "mv_entry s key j = Some e \<and> j < i
       \<and> (\<forall>j'. j' < i \<and> mv_entry s key j' \<noteq> None \<longrightarrow> j' \<le> j)"
proof -
  from assms(2) obtain item where item: "map_of (multiVersionMap s) key = Some item"
    and l: "last_option (filter (\<lambda>it. fst it < i) item) = Some (j, e)"
    by (auto simp: GetLatestBeforeIndex_def Item_GetLatestBeforeIndex_def split: option.splits)
  from item have "(key, item) \<in> set (multiVersionMap s)" by (rule map_of_SomeD)
  with assms(1) have so: "item_sorted item" by (auto simp: store_sorted_def list_all_iff)
  from last_option_filter_greatest[OF so l]
  have m: "(j, e) \<in> set item" and lt: "j < i"
    and g: "\<forall>it' \<in> set item. fst it' < i \<longrightarrow> fst it' \<le> j"
    by auto
  from m item_sorted_distinct[OF so] have "map_of item j = Some e" by simp
  then have a: "mv_entry s key j = Some e" by (simp add: mv_entry_def entry_at_def item)
  have "j' \<le> j" if "j' < i" "mv_entry s key j' \<noteq> None" for j'
  proof -
    from that(2) obtain e' where "map_of item j' = Some e'"
      by (auto simp: mv_entry_def entry_at_def item)
    then have "(j', e') \<in> set item" by (rule map_of_SomeD)
    with g that(1) show ?thesis by auto
  qed
  with a lt show ?thesis by blast
qed

lemma GetLatestBeforeIndex_None:
  assumes "GetLatestBeforeIndex s i key = None" "j < i"
  shows "mv_entry s key j = None"
proof (cases "map_of (multiVersionMap s) key")
  case None
  then show ?thesis by (simp add: mv_entry_def entry_at_def)
next
  case (Some item)
  with assms(1) have "filter (\<lambda>it. fst it < i) item = []"
    by (simp add: GetLatestBeforeIndex_def Item_GetLatestBeforeIndex_def last_option_None_iff)
  then have "\<forall>it \<in> set item. \<not> fst it < i" by (simp add: filter_empty_conv)
  with assms(2) have "j \<notin> fst ` set item" by auto
  then have "map_of item j = None" by (simp add: map_of_eq_None_iff)
  then show ?thesis by (simp add: mv_entry_def entry_at_def Some)
qed

text \<open>An item in index order is determined by its entries, and what the readers of the
  store return for a key is determined by the versioned value \<open>item_of\<close> of the key.\<close>

lemma item_sorted_set_eq:
  "item_sorted xs \<Longrightarrow> item_sorted ys \<Longrightarrow> set xs = set ys \<Longrightarrow> xs = ys"
proof (induction xs arbitrary: ys)
  case Nil
  then show ?case by simp
next
  case (Cons x xs)
  then obtain y ys' where ys: "ys = y # ys'" by (cases ys) auto
  from Cons.prems have sx: "\<forall>z \<in> set xs. fst x < fst z" and tx: "item_sorted xs"
    by (auto simp: item_sorted_def)
  from Cons.prems ys have sy: "\<forall>z \<in> set ys'. fst y < fst z" and ty: "item_sorted ys'"
    by (auto simp: item_sorted_def)
  have xy: "x = y"
  proof (rule ccontr)
    assume ne: "x \<noteq> y"
    with Cons.prems(3) ys have "x \<in> set ys'" "y \<in> set xs" by auto
    with sx sy have "fst y < fst x" "fst x < fst y" by auto
    then show False by simp
  qed
  have "x \<notin> set xs" "y \<notin> set ys'" using sx sy by auto
  with Cons.prems(3) ys xy have "set xs = set ys'" by auto
  from Cons.IH[OF tx ty this] xy ys show ?case by simp
qed

lemma item_sorted_map_of_eq:
  assumes "item_sorted xs" "item_sorted ys" "map_of xs = map_of ys"
  shows "xs = ys"
proof -
  have "set xs = set ys"
    using assms item_sorted_distinct map_of_inject_set by blast
  with assms show ?thesis by (simp add: item_sorted_set_eq)
qed

lemma mv_entry_item_of: "mv_entry s key j = map_of (item_of s key) j"
  by (simp add: mv_entry_def entry_at_def item_of_def split: option.splits)

lemma item_sorted_item_of: "store_sorted s \<Longrightarrow> item_sorted (item_of s key)"
proof (cases "map_of (multiVersionMap s) key")
  case None
  then show ?thesis by (simp add: item_of_def item_sorted_def)
next
  case (Some item)
  assume "store_sorted s"
  moreover from Some have "(key, item) \<in> set (multiVersionMap s)" by (rule map_of_SomeD)
  ultimately show ?thesis by (auto simp: item_of_def Some store_sorted_def list_all_iff)
qed

lemma item_of_eqI:
  assumes "store_sorted s" "store_sorted s'" "\<And>j. mv_entry s key j = mv_entry s' key j"
  shows "item_of s key = item_of s' key"
proof -
  have "map_of (item_of s key) = map_of (item_of s' key)"
    using assms(3) by (simp add: mv_entry_item_of fun_eq_iff)
  with item_sorted_item_of[OF assms(1)] item_sorted_item_of[OF assms(2)] show ?thesis
    by (rule item_sorted_map_of_eq)
qed

lemma readers_item_of:
  "GetLatest s key = Item_GetLatest (item_of s key)"
  "GetLatestBeforeIndex s i key = Item_GetLatestBeforeIndex i (item_of s key)"
  "Has s i key = (Item_GetLatestBeforeIndex i (item_of s key) \<noteq> None)"
  by (simp_all add: GetLatest_def GetLatestBeforeIndex_def Has_def item_of_def Item_GetLatest_def
      Item_GetLatestBeforeIndex_def last_option_def split: option.splits)

section \<open>Validation of a recorded readset\<close>

lemma read_conflicts_Nil: "read_conflicts s i [] = {}"
  by (simp add: read_conflicts_def)

lemma read_conflicts_Cons:
  "read_conflicts s i (kv # rs) = read_conflicts s i [kv] \<union> read_conflicts s i rs"
  by (auto simp: read_conflicts_def)

lemma validate_read_panic:
  "parent_conflict s i kv \<Longrightarrow> validate_read s i kv cs = Inl PanicParentConflict"
  by (simp add: parent_conflict_def validate_read_def)

lemma validate_read_ok:
  assumes "\<not> parent_conflict s i kv"
  shows "\<exists>cs'. validate_read s i kv cs = Inr cs' \<and> set cs' = set cs \<union> read_conflicts s i [kv]
           \<and> (distinct cs \<longrightarrow> distinct cs')"
proof (cases "GetLatestBeforeIndex s i (fst kv)")
  case None
  with assms show ?thesis
    by (simp add: parent_conflict_def validate_read_def read_conflicts_def)
next
  case (Some it)
  obtain j e where it: "it = (j, e)" by (cases it)
  show ?thesis
    by (cases e) (auto simp: Some it validate_read_def read_conflicts_def Item_Index_def)
qed

lemma validate_readset_panic:
  "\<exists>kv \<in> set rs. parent_conflict s i kv \<Longrightarrow> validate_readset s i rs cs = Inl PanicParentConflict"
proof (induction rs arbitrary: cs)
  case Nil
  then show ?case by simp
next
  case (Cons kv rs)
  show ?case
  proof (cases "parent_conflict s i kv")
    case True
    then show ?thesis by (simp add: validate_read_panic)
  next
    case False
    with Cons.prems have ex: "\<exists>kv \<in> set rs. parent_conflict s i kv" by auto
    from validate_read_ok[OF False, of cs] obtain cs' where "validate_read s i kv cs = Inr cs'"
      by blast
    with Cons.IH[OF ex] show ?thesis by simp
  qed
qed

lemma validate_readset_ok:
  "\<forall>kv \<in> set rs. \<not> parent_conflict s i kv \<Longrightarrow>
   \<exists>cs'. validate_readset s i rs cs = Inr cs' \<and> set cs' = set cs \<union> read_conflicts s i rs
         \<and> (distinct cs \<longrightarrow> distinct cs')"
proof (induction rs arbitrary: cs)
  case Nil
  then show ?case by (simp add: read_conflicts_Nil)
next
  case (Cons kv rs)
  then have nc: "\<not> parent_conflict s i kv" and rest: "\<forall>kv \<in> set rs. \<not> parent_conflict s i kv"
    by auto
  from validate_read_ok[OF nc, of cs] obtain c1 where
    c1: "validate_read s i kv cs = Inr c1" "set c1 = set cs \<union> read_conflicts s i [kv]"
        "distinct cs \<longrightarrow> distinct c1"
    by blast
  from Cons.IH[OF rest, of c1] obtain c2 where
    c2: "validate_readset s i rs c1 = Inr c2" "set c2 = set c1 \<union> read_conflicts s i rs"
        "distinct c1 \<longrightarrow> distinct c2"
    by blast
  have "set c2 = set cs \<union> read_conflicts s i (kv # rs)"
    using c1(2) c2(2) read_conflicts_Cons[of s i kv rs] by auto
  with c1 c2 show ?case by simp
qed

lemma GetLatestBeforeIndex_less:
  "GetLatestBeforeIndex s i key = Some it \<Longrightarrow> Item_Index it < i"
  by (auto simp: GetLatestBeforeIndex_def Item_GetLatestBeforeIndex_def Item_Index_def
      split: option.splits dest!: last_option_Some_mem)

lemma validate_read_less:
  "validate_read s i kv cs = Inr cs' \<Longrightarrow> \<forall>j \<in> set cs. j < i \<Longrightarrow> \<forall>j \<in> set cs'. j < i"
  by (auto simp: validate_read_def split: option.splits if_splits dest: GetLatestBeforeIndex_less)

lemma validate_readset_less:
  "validate_readset s i rs cs = Inr cs' \<Longrightarrow> \<forall>j \<in> set cs. j < i \<Longrightarrow> \<forall>j \<in> set cs'. j < i"
proof (induction rs arbitrary: cs)
  case Nil
  then show ?case by simp
next
  case (Cons kv rs)
  then show ?case
    by (auto split: sum.splits dest: validate_read_less)
qed

lemma example_store_validate: "ValidateTransactionState example_store 1 = Inr [0]"
  unfolding example_store_def example_written_def example_parent_def by code_simp



text \<open>
  C6. If some key of the readset of \<open>i\<close> has no entry in the multiversion store before
  \<open>i\<close> and the observed value differs bytewise from the value of the parent store,
  \<^verbatim>\<open>ValidateTransactionState(i)\<close> panics; it records no conflict and returns no list.
\<close>

theorem ValidateTransactionState_parent_panic:
  assumes "kv \<in> set (GetReadset s i)"
    and "GetLatestBeforeIndex s i (fst kv) = None"
    and "\<not> bytes_Equal (parentStore s (fst kv)) (snd kv)"
  shows "ValidateTransactionState s i = Inl PanicParentConflict"
proof -
  have "\<exists>kv \<in> set (GetReadset s i). parent_conflict s i kv"
    using assms by (auto simp: parent_conflict_def)
  then show ?thesis
    by (simp add: ValidateTransactionState_def validate_readset_panic)
qed

theorem ValidateTransactionState_parent_panic_witness:
  "(''c'', Some ''y'') \<in> set (GetReadset example_stale 1)
   \<and> GetLatestBeforeIndex example_stale 1 ''c'' = None
   \<and> parentStore example_stale ''c'' = Some ''x''
   \<and> ValidateTransactionState example_stale 1 = Inl PanicParentConflict"
proof -
  have a: "(''c'', Some ''y'') \<in> set (GetReadset example_stale 1)"
    unfolding example_stale_def example_written_def example_parent_def by code_simp
  have b: "GetLatestBeforeIndex example_stale 1 (fst (''c'', Some ''y'')) = None"
    unfolding example_stale_def example_written_def example_parent_def by code_simp
  have c: "parentStore example_stale ''c'' = Some ''x''"
    unfolding example_stale_def example_written_def example_parent_def by code_simp
  have d: "\<not> bytes_Equal (parentStore example_stale (fst (''c'', Some ''y''))) (snd (''c'', Some ''y''))"
    by (simp add: c bytes_Equal_def contents_def)
  from ValidateTransactionState_parent_panic[OF a b d] a b c show ?thesis by simp
qed

lemma sort_distinct_sorted_list: "distinct (cs :: int list) \<Longrightarrow> sort cs = sorted_list_of_set (set cs)"
  by (simp only: sorted_list_of_set_sort_remdups distinct_remdups_id)

lemma ValidateTransactionState_sorted_list:
  "ValidateTransactionState s i =
     (if \<exists>kv \<in> set (GetReadset s i). parent_conflict s i kv then Inl PanicParentConflict
      else Inr (sorted_list_of_set (read_conflicts s i (GetReadset s i))))"
proof (cases "\<exists>kv \<in> set (GetReadset s i). parent_conflict s i kv")
  case True
  then have "ValidateTransactionState s i = Inl PanicParentConflict"
    by (simp add: ValidateTransactionState_def validate_readset_panic)
  with True show ?thesis by (simp only: if_True)
next
  case False
  then have nc: "\<forall>kv \<in> set (GetReadset s i). \<not> parent_conflict s i kv" by simp
  from validate_readset_ok[OF nc, of "[]"] obtain cs where
    cs: "validate_readset s i (GetReadset s i) [] = Inr cs"
        "set cs = read_conflicts s i (GetReadset s i)" "distinct cs"
    by auto
  have "sort cs = sorted_list_of_set (set cs)"
    using cs(3) by (rule sort_distinct_sorted_list)
  then have "sort cs = sorted_list_of_set (read_conflicts s i (GetReadset s i))"
    by (simp only: cs(2))
  moreover have "ValidateTransactionState s i = Inr (sort cs)"
    by (simp add: ValidateTransactionState_def cs(1))
  ultimately have "ValidateTransactionState s i
      = Inr (sorted_list_of_set (read_conflicts s i (GetReadset s i)))"
    by (simp only:)
  with False show ?thesis by (simp only: if_False)
qed

lemma same_maps_GetLatestBeforeIndex:
  "map_of (multiVersionMap s') = map_of (multiVersionMap s) \<Longrightarrow>
   GetLatestBeforeIndex s' i key = GetLatestBeforeIndex s i key"
  by (simp only: GetLatestBeforeIndex_def)

lemma same_maps_read_conflicts:
  assumes "set rs' = set rs" "map_of (multiVersionMap s') = map_of (multiVersionMap s)"
  shows "read_conflicts s' i rs' = read_conflicts s i rs"
  unfolding read_conflicts_def
  by (simp only: assms(1) same_maps_GetLatestBeforeIndex[OF assms(2)])

lemma same_maps_parent_conflict:
  assumes "map_of (multiVersionMap s') = map_of (multiVersionMap s)" "parentStore s' = parentStore s"
  shows "parent_conflict s' i kv = parent_conflict s i kv"
  unfolding parent_conflict_def
  by (simp only: assms(2) same_maps_GetLatestBeforeIndex[OF assms(1)])

lemma example_ab_readset: "GetReadset example_ab 2 = [(''a'', Some ''1''), (''b'', Some ''1'')]"
  unfolding example_ab_def example_parent_def by code_simp

lemma example_ba_readset: "GetReadset example_ba 2 = [(''b'', Some ''1''), (''a'', Some ''1'')]"
  unfolding example_ba_def example_parent_def by code_simp

lemma example_ab_map:
  "multiVersionMap example_ab = [(''a'', [(0, Written ''2'' 0)]), (''b'', [(1, Written ''3'' 0)])]"
  unfolding example_ab_def example_parent_def by code_simp

lemma example_ba_map:
  "multiVersionMap example_ba = [(''b'', [(1, Written ''3'' 0)]), (''a'', [(0, Written ''2'' 0)])]"
  unfolding example_ba_def example_parent_def by code_simp

lemma example_same_map: "map_of (multiVersionMap example_ba) = map_of (multiVersionMap example_ab)"
  by (auto simp: example_ab_map example_ba_map fun_eq_iff)

lemma example_ab_collected:
  "validate_readset example_ab 2 [(''a'', Some ''1''), (''b'', Some ''1'')] [] = Inr [1, 0]"
  unfolding example_ab_def example_parent_def by code_simp

lemma example_ba_collected:
  "validate_readset example_ba 2 [(''b'', Some ''1''), (''a'', Some ''1'')] [] = Inr [0, 1]"
  unfolding example_ba_def example_parent_def by code_simp

lemma example_ab_validate: "ValidateTransactionState example_ab 2 = Inr [0, 1]"
  unfolding example_ab_def example_parent_def by code_simp

text \<open>
  C8. \<^verbatim>\<open>ValidateTransactionState(i)\<close> assigns to no field of the store, so a second call
  with no mutation in between runs on the same maps, which it may range over in another
  order. Its result is the same for any two states that hold the same readset for \<open>i\<close>
  (as a set of key and value pairs), the same multiversion map (as a map from keys to
  versioned values) and the same parent store, whatever the order in which the readset
  and the map list their keys: both calls return the same list of conflict indices, or
  both panic. The conflict sets collected on the way may differ in order; the returned
  lists agree because they are sorted.
\<close>

theorem ValidateTransactionState_reads:
  assumes "set (GetReadset s' i) = set (GetReadset s i)"
    and "map_of (multiVersionMap s') = map_of (multiVersionMap s)"
    and "parentStore s' = parentStore s"
  shows "ValidateTransactionState s' i = ValidateTransactionState s i"
proof -
  have p: "(\<exists>kv \<in> set (GetReadset s' i). parent_conflict s' i kv)
      \<longleftrightarrow> (\<exists>kv \<in> set (GetReadset s i). parent_conflict s i kv)"
    by (simp only: assms(1) same_maps_parent_conflict[OF assms(2,3)])
  have c: "read_conflicts s' i (GetReadset s' i) = read_conflicts s i (GetReadset s i)"
    using assms(1,2) by (rule same_maps_read_conflicts)
  have "ValidateTransactionState s' i =
     (if \<exists>kv \<in> set (GetReadset s i). parent_conflict s i kv then Inl PanicParentConflict
      else Inr (sorted_list_of_set (read_conflicts s i (GetReadset s i))))"
    using ValidateTransactionState_sorted_list[of s' i] by (simp only: p c)
  also have "\<dots> = ValidateTransactionState s i"
    by (rule ValidateTransactionState_sorted_list[symmetric])
  finally show ?thesis .
qed

theorem ValidateTransactionState_reads_witness:
  "validate_readset example_ab 2 [(''a'', Some ''1''), (''b'', Some ''1'')] [] = Inr [1, 0]
   \<and> validate_readset example_ba 2 [(''b'', Some ''1''), (''a'', Some ''1'')] [] = Inr [0, 1]
   \<and> GetReadset example_ab 2 = [(''a'', Some ''1''), (''b'', Some ''1'')]
   \<and> GetReadset example_ba 2 = [(''b'', Some ''1''), (''a'', Some ''1'')]
   \<and> ValidateTransactionState example_ba 2 = ValidateTransactionState example_ab 2
   \<and> ValidateTransactionState example_ab 2 = Inr [0, 1]"
proof -
  have a: "set (GetReadset example_ba 2) = set (GetReadset example_ab 2)"
    unfolding example_ab_readset example_ba_readset by auto
  have c: "parentStore example_ba = parentStore example_ab"
    by (simp add: example_ab_def example_ba_def parentStore_SetReadset parentStore_SetWriteset)
  from ValidateTransactionState_reads[OF a example_same_map c] example_ab_readset example_ba_readset example_ab_collected example_ba_collected example_ab_validate show ?thesis
    by (intro conjI)
qed

text \<open>
  C9. Every conflict index returned by \<^verbatim>\<open>ValidateTransactionState(i)\<close> is strictly
  less than \<open>i\<close>: a conflict is attributed to the index of an entry found by
  \<^verbatim>\<open>GetLatestBeforeIndex(i, key)\<close>, which looks only at indices below \<open>i\<close>.
\<close>

theorem ValidateTransactionState_below:
  "ValidateTransactionState s i = Inr xs \<Longrightarrow> \<forall>j \<in> set xs. j < i"
  by (auto simp: ValidateTransactionState_def split: sum.splits dest: validate_readset_less)

theorem ValidateTransactionState_below_witness:
  "ValidateTransactionState example_store 1 = Inr [0] \<and> (0::int) < 1"
  using ValidateTransactionState_below[OF example_store_validate]
  by (simp add: example_store_validate)

text \<open>
  C10. For an index with no recorded readset, \<^verbatim>\<open>ValidateTransactionState\<close> returns the
  empty list. \<^verbatim>\<open>GetReadset\<close> yields the empty mapping for an index that has none; a new
  store has none for any index, and of the operations of the store only
  \<^verbatim>\<open>SetReadset\<close> for that very index records one.
\<close>

theorem ValidateTransactionState_no_readset:
  "(GetReadset s i = [] \<longrightarrow> ValidateTransactionState s i = Inr [])
   \<and> (txReadSets s i = None \<longrightarrow> GetReadset s i = [])
   \<and> txReadSets (NewMultiVersionStore parent) i = None
   \<and> txReadSets (SetWriteset j k ws s) i = txReadSets s i
   \<and> txReadSets (SetEstimatedWriteset j k ws s) i = txReadSets s i
   \<and> txReadSets (InvalidateWriteset j k s) i = txReadSets s i
   \<and> (j \<noteq> i \<longrightarrow> txReadSets (SetReadset j rs s) i = txReadSets s i)"
proof -
  have "txReadSets (InvalidateWriteset j k s) i = txReadSets s i"
    by (cases "txWritesetKeys s j") (simp_all add: InvalidateWriteset_def)
  then show ?thesis
    by (simp add: ValidateTransactionState_def GetReadset_def NewMultiVersionStore_def
        SetWriteset_def SetEstimatedWriteset_def removeOldWriteset_def SetReadset_def Let_def)
qed

theorem ValidateTransactionState_no_readset_witness:
  "txReadSets example_store 0 = None \<and> GetReadset example_store 0 = []
   \<and> ValidateTransactionState example_store 0 = Inr []"
proof -
  note t = ValidateTransactionState_no_readset[of example_store 0 example_parent 0 0 "[]" "[]"]
  have "txReadSets (SetReadset 1 [(''a'', Some ''1''), (''b'', None), (''c'', Some ''x'')]
          (SetWriteset 0 0 [(''a'', Some ''2''), (''b'', None)] (NewMultiVersionStore example_parent))) 0
        = None"
    using ValidateTransactionState_no_readset[of
        "SetWriteset 0 0 [(''a'', Some ''2''), (''b'', None)] (NewMultiVersionStore example_parent)"
        0 example_parent 1 0 "[]" "[(''a'', Some ''1''), (''b'', None), (''c'', Some ''x'')]"]
      ValidateTransactionState_no_readset[of "NewMultiVersionStore example_parent" 0 example_parent
        0 0 "[(''a'', Some ''2''), (''b'', None)]" "[]"]
    by simp
  then have a: "txReadSets example_store 0 = None"
    by (simp add: example_store_def example_written_def)
  with t have b: "GetReadset example_store 0 = []" by blast
  with t have "ValidateTransactionState example_store 0 = Inr []" by blast
  with a b show ?thesis by simp
qed

section \<open>Flushing to the parent store\<close>









section \<open>Replacing and invalidating a writeset\<close>

text \<open>
  C7. \<^verbatim>\<open>InvalidateWriteset(i, k)\<close> replaces, for each key recorded in
  \<^verbatim>\<open>txWritesetKeys[i]\<close>, the entry at index \<open>i\<close> by \<open>Estimate(k)\<close>; it leaves
  \<^verbatim>\<open>txWritesetKeys\<close> as it is (and the readsets and the parent store), and every entry
  at another (key, index) pair unchanged.
\<close>

theorem InvalidateWriteset_frame:
  "txWritesetKeys (InvalidateWriteset i k s) = txWritesetKeys s
   \<and> txReadSets (InvalidateWriteset i k s) = txReadSets s
   \<and> parentStore (InvalidateWriteset i k s) = parentStore s
   \<and> (\<forall>key \<in> set (writeset_keys s i). mv_entry (InvalidateWriteset i k s) key i = Some (Estimate k))
   \<and> (\<forall>key idx. \<not> (idx = i \<and> key \<in> set (writeset_keys s i)) \<longrightarrow>
         mv_entry (InvalidateWriteset i k s) key idx = mv_entry s key idx)"
proof -
  have "txReadSets (InvalidateWriteset i k s) = txReadSets s"
    "parentStore (InvalidateWriteset i k s) = parentStore s"
    by (cases "txWritesetKeys s i"; simp add: InvalidateWriteset_def)+
  then show ?thesis
    by (simp add: txWritesetKeys_InvalidateWriteset mv_entry_InvalidateWriteset)
qed

theorem InvalidateWriteset_frame_witness:
  "writeset_keys example_written 0 = [''a'', ''b'']
   \<and> txWritesetKeys (InvalidateWriteset 0 0 example_written) 0 = Some [''a'', ''b'']
   \<and> mv_entry (InvalidateWriteset 0 0 example_written) ''a'' 0 = Some (Estimate 0)
   \<and> mv_entry (InvalidateWriteset 0 0 example_written) ''b'' 0 = Some (Estimate 0)
   \<and> mv_entry (InvalidateWriteset 0 0 example_written) ''a'' 1 = None
   \<and> mv_entry (InvalidateWriteset 0 0 example_written) ''c'' 0 = None"
proof -
  note t = InvalidateWriteset_frame[of 0 0 example_written]
  have k: "writeset_keys example_written 0 = [''a'', ''b'']"
    unfolding example_written_def example_parent_def by code_simp
  have o: "txWritesetKeys example_written 0 = Some [''a'', ''b'']"
    "mv_entry example_written ''a'' 1 = None" "mv_entry example_written ''c'' 0 = None"
    unfolding example_written_def example_parent_def by code_simp+
  from t have "txWritesetKeys (InvalidateWriteset 0 0 example_written) 0 = Some [''a'', ''b'']"
    by (simp add: o)
  moreover from t have "mv_entry (InvalidateWriteset 0 0 example_written) ''a'' 0 = Some (Estimate 0)"
    "mv_entry (InvalidateWriteset 0 0 example_written) ''b'' 0 = Some (Estimate 0)"
    by (simp_all add: k)
  moreover from t have "mv_entry (InvalidateWriteset 0 0 example_written) ''a'' 1 = None"
    "mv_entry (InvalidateWriteset 0 0 example_written) ''c'' 0 = None"
    by (simp_all add: k o)
  ultimately show ?thesis using k by simp
qed

text \<open>
  C4. \<^verbatim>\<open>SetWriteset(i, k, W')\<close>, for a writeset \<open>W'\<close> with one value per key: the removal
  step erases the entry at index \<open>i\<close> of every key recorded in the previous
  \<^verbatim>\<open>txWritesetKeys[i]\<close> that is not a key of \<open>W'\<close> and leaves the keys of \<open>W'\<close> in place;
  then every entry of \<open>W'\<close> is applied at index \<open>i\<close>, as \<open>Written\<close>, or as \<open>Deleted\<close> for a
  nil value; \<^verbatim>\<open>txWritesetKeys[i]\<close> becomes the ascending key list of \<open>W'\<close>; entries at
  other indices are untouched. Hence, in a state where the entries at index \<open>i\<close> are those
  of the recorded writeset, setting any writeset \<open>W1\<close> first and \<open>W'\<close> next gives every
  key outside \<open>W'\<close> the entries it has when \<open>W'\<close> is set without \<open>W1\<close> before it; with
  the items in index order, the versioned value of such a key is the same in both.
\<close>

theorem SetWriteset_replaces:
  assumes "distinct (map fst W)"
  shows "(\<forall>key \<in> set (writeset_keys s i). key \<notin> fst ` set W \<longrightarrow>
            mv_entry (removeOldWriteset i W s) key i = None)
       \<and> (\<forall>key \<in> fst ` set W. \<forall>j. mv_entry (removeOldWriteset i W s) key j = mv_entry s key j)
       \<and> (\<forall>(key, v) \<in> set W. mv_entry (SetWriteset i k W s) key i = Some (entry_of_write k v))
       \<and> txWritesetKeys (SetWriteset i k W s) = (txWritesetKeys s)(i \<mapsto> sort (map fst W))
       \<and> (\<forall>key j. j \<noteq> i \<longrightarrow> mv_entry (SetWriteset i k W s) key j = mv_entry s key j)
       \<and> (\<forall>key \<in> set (writeset_keys s i). key \<notin> fst ` set W \<longrightarrow>
            mv_entry (SetWriteset i k W s) key i = None)
       \<and> (writeset_recorded s i \<longrightarrow>
            (\<forall>W1 k1 key j. key \<notin> fst ` set W \<longrightarrow>
               mv_entry (SetWriteset i k W (SetWriteset i k1 W1 s)) key j
                 = mv_entry (SetWriteset i k W s) key j))
       \<and> (writeset_recorded s i \<and> store_sorted s \<longrightarrow>
            (\<forall>W1 k1 key. key \<notin> fst ` set W \<longrightarrow>
               item_of (SetWriteset i k W (SetWriteset i k1 W1 s)) key
                 = item_of (SetWriteset i k W s) key))"
proof -
  have c1: "\<forall>key \<in> set (writeset_keys s i). key \<notin> fst ` set W \<longrightarrow>
            mv_entry (removeOldWriteset i W s) key i = None"
    by (simp add: mv_entry_removeOldWriteset)
  have c2: "\<forall>key \<in> fst ` set W. \<forall>j. mv_entry (removeOldWriteset i W s) key j = mv_entry s key j"
    by (simp add: mv_entry_removeOldWriteset)
  have c3: "\<forall>(key, v) \<in> set W. mv_entry (SetWriteset i k W s) key i = Some (entry_of_write k v)"
    using assms by (auto simp: mv_entry_SetWriteset map_of_rev_distinct)
  have c4: "txWritesetKeys (SetWriteset i k W s) = (txWritesetKeys s)(i \<mapsto> sort (map fst W))"
    by (rule txWritesetKeys_SetWriteset)
  have c5: "\<forall>key j. j \<noteq> i \<longrightarrow> mv_entry (SetWriteset i k W s) key j = mv_entry s key j"
    by (simp add: mv_entry_SetWriteset)
  have c6: "\<forall>key \<in> set (writeset_keys s i). key \<notin> fst ` set W \<longrightarrow>
            mv_entry (SetWriteset i k W s) key i = None"
    by (simp add: mv_entry_SetWriteset map_of_rev_notin)
  have c7: "mv_entry (SetWriteset i k W (SetWriteset i k1 W1 s)) key j
                 = mv_entry (SetWriteset i k W s) key j"
    if rec: "writeset_recorded s i" and notin: "key \<notin> fst ` set W" for W1 k1 key j
  proof (cases "j = i")
    case False
    then show ?thesis by (simp add: mv_entry_SetWriteset)
  next
    case True
    have none: "map_of (rev W) key = None" using notin by (simp add: map_of_rev_None)
    have keys1: "set (writeset_keys (SetWriteset i k1 W1 s) i) = fst ` set W1"
      by (simp add: writeset_keys_def txWritesetKeys_SetWriteset)
    have unrec: "key \<notin> set (writeset_keys s i) \<Longrightarrow> mv_entry s key i = None"
      using rec by (auto simp: writeset_recorded_iff)
    show ?thesis
      using unrec map_of_rev_None[of W1 key]
      by (auto simp: True mv_entry_SetWriteset none keys1 split: option.splits)
  qed
  have c8: "item_of (SetWriteset i k W (SetWriteset i k1 W1 s)) key
                 = item_of (SetWriteset i k W s) key"
    if "writeset_recorded s i" "store_sorted s" "key \<notin> fst ` set W" for W1 k1 key
    using that by (intro item_of_eqI store_sorted_SetWriteset c7) simp_all
  from c1 c2 c3 c4 c5 c6 c7 c8 show ?thesis by blast
qed

theorem SetWriteset_replaces_witness:
  "distinct (map fst [(''b'', Some ''3''), (''d'', None)])
   \<and> writeset_recorded example_written 0
   \<and> mv_entry example_written ''a'' 0 = Some (Written ''2'' 0)
   \<and> mv_entry (removeOldWriteset 0 [(''b'', Some ''3''), (''d'', None)] example_written) ''a'' 0 = None
   \<and> mv_entry (removeOldWriteset 0 [(''b'', Some ''3''), (''d'', None)] example_written) ''b'' 0
       = Some (Deleted 0)
   \<and> mv_entry (SetWriteset 0 1 [(''b'', Some ''3''), (''d'', None)] example_written) ''a'' 0 = None
   \<and> mv_entry (SetWriteset 0 1 [(''b'', Some ''3''), (''d'', None)] example_written) ''b'' 0
       = Some (Written ''3'' 1)
   \<and> mv_entry (SetWriteset 0 1 [(''b'', Some ''3''), (''d'', None)] example_written) ''d'' 0
       = Some (Deleted 1)
   \<and> txWritesetKeys (SetWriteset 0 1 [(''b'', Some ''3''), (''d'', None)] example_written) 0
       = Some [''b'', ''d'']
   \<and> mv_entry (SetWriteset 0 1 [(''b'', Some ''3''), (''d'', None)]
                 (SetWriteset 0 0 [(''e'', Some ''5'')] example_written)) ''e'' 0
       = mv_entry (SetWriteset 0 1 [(''b'', Some ''3''), (''d'', None)] example_written) ''e'' 0
   \<and> store_sorted example_written
   \<and> item_of (SetWriteset 0 1 [(''b'', Some ''3''), (''d'', None)]
                 (SetWriteset 0 0 [(''e'', Some ''5'')] example_written)) ''e''
       = item_of (SetWriteset 0 1 [(''b'', Some ''3''), (''d'', None)] example_written) ''e''"
proof -
  define W :: WriteSet where "W = [(''b'', Some ''3''), (''d'', None)]"
  have d: "distinct (map fst W)" by (simp add: W_def)
  have r: "writeset_recorded example_written 0"
    unfolding example_written_def example_parent_def by code_simp
  have so: "store_sorted example_written"
    unfolding example_written_def example_parent_def by code_simp
  have k: "writeset_keys example_written 0 = [''a'', ''b'']"
    unfolding example_written_def example_parent_def by code_simp
  have e: "mv_entry example_written ''a'' 0 = Some (Written ''2'' 0)"
    "mv_entry example_written ''b'' 0 = Some (Deleted 0)"
    unfolding example_written_def example_parent_def by code_simp+
  note t = SetWriteset_replaces[OF d, of example_written 0 1]
  from t have "mv_entry (removeOldWriteset 0 W example_written) ''a'' 0 = None"
    by (simp add: k W_def)
  moreover from t have "mv_entry (removeOldWriteset 0 W example_written) ''b'' 0 = Some (Deleted 0)"
    by (simp add: W_def e)
  moreover from t have "mv_entry (SetWriteset 0 1 W example_written) ''a'' 0 = None"
    by (simp add: k W_def)
  moreover from t have "mv_entry (SetWriteset 0 1 W example_written) ''b'' 0 = Some (Written ''3'' 1)"
    "mv_entry (SetWriteset 0 1 W example_written) ''d'' 0 = Some (Deleted 1)"
    by (simp_all add: W_def entry_of_write_def)
  moreover from t have "txWritesetKeys (SetWriteset 0 1 W example_written) 0 = Some [''b'', ''d'']"
    by (simp add: W_def)
  moreover from t r have "mv_entry (SetWriteset 0 1 W (SetWriteset 0 0 [(''e'', Some ''5'')] example_written)) ''e'' 0
       = mv_entry (SetWriteset 0 1 W example_written) ''e'' 0"
    by (simp add: W_def)
  moreover from t r so have "item_of (SetWriteset 0 1 W (SetWriteset 0 0 [(''e'', Some ''5'')] example_written)) ''e''
       = item_of (SetWriteset 0 1 W example_written) ''e''"
    by (simp add: W_def)
  ultimately show ?thesis
    using d r e so unfolding W_def by simp
qed

section \<open>The scheduler leaves the parent stores alone\<close>











lemma set_update_subset: "set (AList.update k v al) \<subseteq> insert (k, v) (set al)"
  by (induction al) auto

lemma initMultiVersionStore_fold:
  "(\<forall>(sk, mv) \<in> set acc. mv = NewMultiVersionStore (GetKVStore ctx sk)) \<Longrightarrow>
   (\<forall>(sk, mv) \<in> set (fold (\<lambda>sk mvs. AList.update sk (NewMultiVersionStore (GetKVStore ctx sk)) mvs) keys acc).
      mv = NewMultiVersionStore (GetKVStore ctx sk))
   \<and> fst ` set (fold (\<lambda>sk mvs. AList.update sk (NewMultiVersionStore (GetKVStore ctx sk)) mvs) keys acc)
       = fst ` set acc \<union> set keys"
proof (induction keys arbitrary: acc)
  case Nil
  then show ?case by simp
next
  case (Cons k keys)
  have "\<forall>(sk, mv) \<in> set (AList.update k (NewMultiVersionStore (GetKVStore ctx k)) acc).
      mv = NewMultiVersionStore (GetKVStore ctx sk)"
    using Cons.prems set_update_subset[of k "NewMultiVersionStore (GetKVStore ctx k)" acc] by auto
  from Cons.IH[OF this] show ?case by (auto simp: AList.dom_update)
qed

lemma initMultiVersionStore_fresh:
  "(\<forall>(sk, mv) \<in> set (initMultiVersionStore ctx). mv = NewMultiVersionStore (GetKVStore ctx sk))
   \<and> fst ` set (initMultiVersionStore ctx) = set (StoreKeys ctx)"
  using initMultiVersionStore_fold[of "[]" ctx "StoreKeys ctx"]
  by (simp add: initMultiVersionStore_def)

lemma length_toTasks: "length (toTasks reqs) = length reqs"
  by (simp add: toTasks_def)





section \<open>Seeding estimated writesets\<close>

lemma update_as_map:
  "distinct (map fst al) \<Longrightarrow> map_of al k = Some v \<Longrightarrow>
   AList.update k v' al = map (\<lambda>(k', x). (k', if k' = k then v' else x)) al"
proof (induction al)
  case Nil
  then show ?case by simp
next
  case (Cons p al)
  obtain k0 x0 where p: "p = (k0, x0)" by (cases p)
  show ?case
  proof (cases "k0 = k")
    case True
    with Cons.prems p have "k \<notin> fst ` set al" by auto
    then have "map (\<lambda>(k', x). (k', if k' = k then v' else x)) al = al"
      by (induction al) auto
    with True p show ?thesis by simp
  next
    case False
    with Cons p show ?thesis by simp
  qed
qed

lemma PrefillEstimates_req_map:
  assumes "distinct (map fst wss)" "distinct (map fst mvs)" "fst ` set wss \<subseteq> fst ` set mvs"
  shows "PrefillEstimates_req i wss mvs = Inr (map (\<lambda>(sk, mv). (sk, seed_request i wss sk mv)) mvs)"
  using assms
proof (induction wss arbitrary: mvs)
  case Nil
  then show ?case by (simp add: seed_request_def)
next
  case (Cons p wss)
  obtain sk ws where p: "p = (sk, ws)" by (cases p)
  from Cons.prems p have "sk \<in> fst ` set mvs" by simp
  then obtain mv where mv: "map_of mvs sk = Some mv"
    by (metis domD dom_map_of_conv_image_fst)
  define mvs1 where "mvs1 = AList.update sk (SetEstimatedWriteset i (- 1) ws mv) mvs"
  have m1: "mvs1 = map (\<lambda>(k', x). (k', if k' = sk then SetEstimatedWriteset i (- 1) ws mv else x)) mvs"
    unfolding mvs1_def using Cons.prems(2) mv by (rule update_as_map)
  have k1: "map fst mvs1 = map fst mvs"
    by (simp add: m1 comp_def case_prod_unfold)
  have s1: "fst ` set mvs1 = fst ` set mvs" using k1 by (metis set_map)
  have d: "distinct (map fst wss)" "distinct (map fst mvs1)" "fst ` set wss \<subseteq> fst ` set mvs1"
    using Cons.prems p by (simp_all add: k1 s1)
  have notin: "sk \<notin> fst ` set wss" using Cons.prems(1) p by simp
  have "PrefillEstimates_req i (p # wss) mvs = PrefillEstimates_req i wss mvs1"
    by (simp add: p mv mvs1_def)
  also have "\<dots> = Inr (map (\<lambda>(sk, mv). (sk, seed_request i wss sk mv)) mvs1)"
    by (rule Cons.IH[OF d])
  also have "map (\<lambda>(sk, mv). (sk, seed_request i wss sk mv)) mvs1
      = map (\<lambda>(sk, mv). (sk, seed_request i (p # wss) sk mv)) mvs"
  proof -
    have "seed_request i wss k' (if k' = sk then SetEstimatedWriteset i (- 1) ws mv else x)
        = seed_request i (p # wss) k' x" if "(k', x) \<in> set mvs" for k' x
    proof (cases "k' = sk")
      case True
      with that Cons.prems(2) mv have "x = mv" by simp
      moreover have "map_of wss sk = None" using notin by (simp add: map_of_eq_None_iff)
      ultimately show ?thesis using True by (simp add: seed_request_def p)
    next
      case False
      then show ?thesis by (simp add: seed_request_def p)
    qed
    then show ?thesis by (auto simp: m1)
  qed
  finally show ?case .
qed

lemma PrefillEstimates_from_map:
  assumes "\<forall>req \<in> set reqs. distinct (map fst (EstimatedWritesets req))"
    "distinct (map fst mvs)"
    "\<forall>req \<in> set reqs. fst ` set (EstimatedWritesets req) \<subseteq> fst ` set mvs"
  shows "PrefillEstimates_from i reqs mvs = Inr (map (\<lambda>(sk, mv). (sk, seed_store sk i reqs mv)) mvs)"
  using assms
proof (induction reqs arbitrary: i mvs)
  case Nil
  then show ?case by simp
next
  case (Cons req reqs)
  define mvs1 where "mvs1 = map (\<lambda>(sk, mv). (sk, seed_request i (EstimatedWritesets req) sk mv)) mvs"
  have r: "PrefillEstimates_req i (EstimatedWritesets req) mvs = Inr mvs1"
    unfolding mvs1_def using Cons.prems by (intro PrefillEstimates_req_map) auto
  have k1: "map fst mvs1 = map fst mvs"
    by (simp add: mvs1_def comp_def case_prod_unfold)
  then have s1: "fst ` set mvs1 = fst ` set mvs" by (metis set_map)
  have "PrefillEstimates_from (i + 1) reqs mvs1
      = Inr (map (\<lambda>(sk, mv). (sk, seed_store sk (i + 1) reqs mv)) mvs1)"
    using Cons.prems k1 s1 by (intro Cons.IH) auto
  then show ?case
    by (simp add: r mvs1_def comp_def case_prod_unfold)
qed

lemma example_prefill_hyps:
  "\<forall>req \<in> set example_entries. distinct (map fst (EstimatedWritesets req))"
  "distinct (map fst (initMultiVersionStore example_ctx))"
  "\<forall>req \<in> set example_entries.
     fst ` set (EstimatedWritesets req) \<subseteq> fst ` set (initMultiVersionStore example_ctx)"
  unfolding example_entries_def example_ctx_def by code_simp+

text \<open>
  C2, as stated, fails: the entries of the example batch carry an estimated writeset for
  \<open>a\<close> at index 0, which \<^verbatim>\<open>PrefillEstimates\<close> would store as \<open>Estimate(-1)\<close>; but
  \<^verbatim>\<open>ProcessAll\<close> on the requests of these entries starts its first execution round on
  the stores as \<^verbatim>\<open>initMultiVersionStore\<close> made them, where \<open>a\<close> has no entry at index 0.
\<close>

theorem ProcessAll_prefill_counterexample:
  "ProcessAll 2 example_env example_ctx (map EntryRequest example_entries)
     = ProcessAll_loop 2 example_env (initMultiVersionStore example_ctx)
         (toTasks (map EntryRequest example_entries)) [0, 1]
   \<and> entry_view ''a'' 0 (initMultiVersionStore example_ctx) = [(''bank'', None)]
   \<and> map_sum id (entry_view ''a'' 0) (PrefillEstimates example_entries (initMultiVersionStore example_ctx))
       = Inr [(''bank'', Some (Estimate (- 1)))]"
proof -
  have "ProcessAll 2 example_env example_ctx (map EntryRequest example_entries)
     = ProcessAll_loop 2 example_env (initMultiVersionStore example_ctx)
         (toTasks (map EntryRequest example_entries)) [0, 1]"
    by (simp add: ProcessAll_def Let_def length_toTasks example_entries_def)
  moreover have "entry_view ''a'' 0 (initMultiVersionStore example_ctx) = [(''bank'', None)]"
    unfolding example_ctx_def by code_simp
  moreover have "map_sum id (entry_view ''a'' 0)
      (PrefillEstimates example_entries (initMultiVersionStore example_ctx))
       = Inr [(''bank'', Some (Estimate (- 1)))]"
    unfolding example_ctx_def example_entries_def by code_simp
  ultimately show ?thesis by simp
qed

text \<open>
  C2, amended. For every batch whose entries carry estimated writesets (one per store
  key, each for a store key the scheduler has a store for), \<^verbatim>\<open>PrefillEstimates\<close> seeds
  them: for each request index \<open>i\<close> in turn and each store key with an estimated writeset,
  \<open>set_estimated_writeset(i, -1, writeset)\<close> is applied to that store key's multiversion
  store, which leaves \<open>Estimate(-1)\<close> at index \<open>i\<close> under every key of the writeset.
  \<^verbatim>\<open>ProcessAll\<close> takes plain requests and does not call it: its first execution round
  starts on the multiversion stores as \<^verbatim>\<open>initMultiVersionStore\<close> made them, each new.
\<close>

theorem PrefillEstimates_seeds:
  assumes "\<forall>req \<in> set entries. distinct (map fst (EstimatedWritesets req))"
    and "distinct (map fst mvs)"
    and "\<forall>req \<in> set entries. fst ` set (EstimatedWritesets req) \<subseteq> fst ` set mvs"
  shows "PrefillEstimates entries mvs = Inr (map (\<lambda>(sk, mv). (sk, seed_store sk 0 entries mv)) mvs)
       \<and> (\<forall>i ws mv. \<forall>key \<in> fst ` set ws.
            mv_entry (SetEstimatedWriteset i (- 1) ws mv) key i = Some (Estimate (- 1)))
       \<and> ProcessAll fuel e ctx reqs
           = ProcessAll_loop fuel e (initMultiVersionStore ctx) (toTasks reqs) [0..<length reqs]
       \<and> (\<forall>(sk, mv) \<in> set (initMultiVersionStore ctx). mv = NewMultiVersionStore (GetKVStore ctx sk))"
proof -
  have "PrefillEstimates entries mvs = Inr (map (\<lambda>(sk, mv). (sk, seed_store sk 0 entries mv)) mvs)"
    unfolding PrefillEstimates_def using assms by (rule PrefillEstimates_from_map)
  moreover have "\<forall>i ws mv. \<forall>key \<in> fst ` set ws.
            mv_entry (SetEstimatedWriteset i (- 1) ws mv) key i = Some (Estimate (- 1))"
    by (simp add: mv_entry_SetEstimatedWriteset)
  moreover have "ProcessAll fuel e ctx reqs
           = ProcessAll_loop fuel e (initMultiVersionStore ctx) (toTasks reqs) [0..<length reqs]"
    by (simp add: ProcessAll_def Let_def length_toTasks)
  ultimately show ?thesis
    using initMultiVersionStore_fresh[of ctx] by blast
qed

theorem PrefillEstimates_seeds_witness:
  "PrefillEstimates example_entries (initMultiVersionStore example_ctx)
     = Inr [(''bank'', SetEstimatedWriteset 0 (- 1) [(''a'', None)] (NewMultiVersionStore Map.empty))]
   \<and> mv_entry (SetEstimatedWriteset 0 (- 1) [(''a'', None)] (NewMultiVersionStore Map.empty)) ''a'' 0
       = Some (Estimate (- 1))
   \<and> initMultiVersionStore example_ctx = [(''bank'', NewMultiVersionStore Map.empty)]"
proof -
  note t = PrefillEstimates_seeds[OF example_prefill_hyps, of 0 example_env example_ctx "[]"]
  have i: "initMultiVersionStore example_ctx = [(''bank'', NewMultiVersionStore Map.empty)]"
    by (simp add: initMultiVersionStore_def example_ctx_def)
  have s: "seed_store ''bank'' 0 example_entries (NewMultiVersionStore Map.empty)
      = SetEstimatedWriteset 0 (- 1) [(''a'', None)] (NewMultiVersionStore Map.empty)"
    by (simp add: example_entries_def seed_request_def)
  from t have "PrefillEstimates example_entries (initMultiVersionStore example_ctx)
      = Inr (map (\<lambda>(sk, mv). (sk, seed_store sk 0 example_entries mv)) (initMultiVersionStore example_ctx))"
    by (rule conjunct1)
  then have a: "PrefillEstimates example_entries (initMultiVersionStore example_ctx)
     = Inr [(''bank'', SetEstimatedWriteset 0 (- 1) [(''a'', None)] (NewMultiVersionStore Map.empty))]"
    by (simp add: i s)
  from t have "\<forall>i ws mv. \<forall>key \<in> fst ` set ws.
      mv_entry (SetEstimatedWriteset i (- 1) ws mv) key i = Some (Estimate (- 1))"
    by blast
  then have "\<forall>key \<in> fst ` set [(''a'', None :: bytes option)].
      mv_entry (SetEstimatedWriteset 0 (- 1) [(''a'', None)] (NewMultiVersionStore Map.empty)) key 0
        = Some (Estimate (- 1))"
    by blast
  then have b:
    "mv_entry (SetEstimatedWriteset 0 (- 1) [(''a'', None)] (NewMultiVersionStore Map.empty)) ''a'' 0
       = Some (Estimate (- 1))"
    by simp
  from a b i show ?thesis by simp
qed

end
